theory Spec2Isabelle
  imports Complex_Main "HOL-Library.AList"
begin

section \<open>The circuit pool manager of src/core/tor_manager.py\<close>

text \<open>
  The embedding follows the Python source function by function.
  \<^item> Timestamps (\<open>time.time()\<close>, a float) are real numbers; every operation receives the
    clock reading \<open>now\<close> as an argument, and all reads of the clock inside one call return
    that value.
  \<^item> The dictionaries \<open>circuits\<close> and \<open>_session_cache\<close> are association lists in insertion
    order: \<open>map_of\<close> is the lookup, \<open>AList.update\<close> the assignment \<open>d[k] = v\<close>.
  \<^item> The control channel (\<open>stem\<close>'s controller) is an input: each call of
    \<open>_create_circuit\<close> receives the controller's reply, either \<open>ControllerError\<close> or a
    new circuit id with its path.
  \<^item> An exception is a value of \<open>py_error\<close>; a function that can raise returns
    \<open>py_error + 'a\<close> together with the manager as the exception leaves it.
  \<^item> A session is its proxy port (the manager's socks port) and the user agent chosen for
    it; the draw of \<open>random.choice\<close> is the argument \<open>r\<close>. The fixed headers, the
    browser of \<open>get_browser\<close>, and the connection to the Tor process made by \<open>start\<close>
    carry no state of the pool and are left out: \<open>start\<close> is the creation of the initial
    circuits over an established control connection.
  Names that start with an underscore in the source lose it here; the field \<open>id\<close> of a
  circuit is \<open>circuit_id\<close>, and the entry \<open>active_circuits\<close> of the statistics is
  \<open>active_count\<close>.
\<close>

subsection \<open>Data model\<close>

datatype CircuitState = FRESH | ACTIVE | DEGRADED | DEAD

record Circuit =
  circuit_id :: string
  state :: CircuitState
  created_at :: real
  request_count :: int
  last_used :: "real option"
  entry_node :: "string option"
  exit_node :: "string option"

record Session =
  proxy_port :: int
  user_agent :: string

record TorManager =
  socks_port :: int
  control_port :: int
  control_password :: "string option"
  max_circuits :: int
  circuit_lifetime :: int
  circuits :: "(string \<times> Circuit) list"
  active_circuits :: "string list"
  session_cache :: "(string \<times> Session) list"

record Stats =
  total_circuits :: int
  active_count :: int
  healthy_circuits :: int
  sessions_cached :: int

datatype py_error = KeyError string | ValueError string | RuntimeError string

datatype ctl_reply = ControllerError | Built string "string list"

subsection \<open>Circuit: age and health\<close>

text \<open>
  The source subtracts two floats; here the difference is the exact one. The two agree
  wherever the exact difference is itself a float, as it is for clock readings in whole
  seconds; where the float difference is rounded (a creation time just below a whole
  second, for instance) the comparisons \<open>age > 600\<close> and \<open>age > circuit_lifetime\<close> of
  the source may come out differently. The theorems below that hold for all inputs use
  no arithmetic of the age, and the concrete inputs are whole-second readings.
\<close>

definition age :: "real \<Rightarrow> Circuit \<Rightarrow> real" where
  "age now c = now - created_at c"

definition is_healthy :: "real \<Rightarrow> Circuit \<Rightarrow> bool" where
  "is_healthy now c =
     (if state c = DEAD then False
      else if age now c > 600 then False
      else if request_count c > 100 then False
      else True)"

subsection \<open>TorManager: construction and circuit creation\<close>

definition TorManager_init ::
  "int \<Rightarrow> int \<Rightarrow> string option \<Rightarrow> int \<Rightarrow> int \<Rightarrow> TorManager" where
  "TorManager_init sp cp pw mc lt =
     \<lparr>socks_port = sp, control_port = cp, control_password = pw, max_circuits = mc,
      circuit_lifetime = lt, circuits = [], active_circuits = [], session_cache = []\<rparr>"

definition new_circuit :: "real \<Rightarrow> string \<Rightarrow> string list \<Rightarrow> Circuit" where
  "new_circuit now cid path =
     \<lparr>circuit_id = cid, state = FRESH, created_at = now, request_count = 0,
      last_used = None,
      entry_node = (if path \<noteq> [] then Some (hd path) else None),
      exit_node = (if path \<noteq> [] then Some (last path) else None)\<rparr>"

definition create_circuit :: "real \<Rightarrow> ctl_reply \<Rightarrow> TorManager \<Rightarrow> string option \<times> TorManager" where
  "create_circuit now reply m =
     (case reply of
        ControllerError \<Rightarrow> (None, m)
      | Built cid path \<Rightarrow>
          (Some cid,
           m\<lparr>circuits := AList.update cid (new_circuit now cid path) (circuits m),
             active_circuits := active_circuits m @ [cid]\<rparr>))"

definition initialize_circuits :: "real \<Rightarrow> (nat \<Rightarrow> ctl_reply) \<Rightarrow> TorManager \<Rightarrow> TorManager" where
  "initialize_circuits now ctl m =
     fold (\<lambda>i m'. snd (create_circuit now (ctl i) m')) [0..<nat (min 3 (max_circuits m))] m"

definition start :: "real \<Rightarrow> (nat \<Rightarrow> ctl_reply) \<Rightarrow> TorManager \<Rightarrow> TorManager" where
  "start now ctl m = initialize_circuits now ctl m"

subsection \<open>Cleanup\<close>

fun scan_expired ::
  "real \<Rightarrow> int \<Rightarrow> (string \<times> Circuit) list \<Rightarrow> (string \<times> Circuit) list \<times> string list" where
  "scan_expired now lt [] = ([], [])"
| "scan_expired now lt ((cid, c) # rest) =
     (let (rest', dead) = scan_expired now lt rest in
      if state c = DEAD then ((cid, c) # rest', cid # dead)
      else if age now c > real_of_int lt then ((cid, c\<lparr>state := DEAD\<rparr>) # rest', cid # dead)
      else if request_count c > 100 then ((cid, c\<lparr>state := DEGRADED\<rparr>) # rest', dead)
      else ((cid, c) # rest', dead))"

definition cleanup_circuits :: "real \<Rightarrow> TorManager \<Rightarrow> TorManager" where
  "cleanup_circuits now m =
     (let (reg, dead_circuits) = scan_expired now (circuit_lifetime m) (circuits m) in
      m\<lparr>circuits := reg, active_circuits := fold remove1 dead_circuits (active_circuits m)\<rparr>)"

subsection \<open>Acquisition\<close>

fun find_healthy ::
  "bool \<Rightarrow> real \<Rightarrow> (string \<times> Circuit) list \<Rightarrow> string list \<Rightarrow> py_error + (string \<times> Circuit) option" where
  "find_healthy rf now reg [] = Inr None"
| "find_healthy rf now reg (cid # rest) =
     (case map_of reg cid of
        None \<Rightarrow> Inl (KeyError cid)
      | Some c \<Rightarrow>
          if is_healthy now c then
            (if rf \<and> request_count c > 0 then find_healthy rf now reg rest
             else Inr (Some (cid, c)))
          else find_healthy rf now reg rest)"

definition last_used_key :: "(string \<times> Circuit) list \<Rightarrow> string \<Rightarrow> py_error + real" where
  "last_used_key reg cid =
     (case map_of reg cid of
        None \<Rightarrow> Inl (KeyError cid)
      | Some c \<Rightarrow> Inr (case last_used c of None \<Rightarrow> 0 | Some u \<Rightarrow> if u = 0 then 0 else u))"

fun py_min :: "(string \<times> Circuit) list \<Rightarrow> string \<Rightarrow> real \<Rightarrow> string list \<Rightarrow> py_error + string" where
  "py_min reg best bk [] = Inr best"
| "py_min reg best bk (cid # rest) =
     (case last_used_key reg cid of
        Inl e \<Rightarrow> Inl e
      | Inr k \<Rightarrow> if k < bk then py_min reg cid k rest else py_min reg best bk rest)"

definition oldest_active :: "TorManager \<Rightarrow> py_error + string" where
  "oldest_active m =
     (case active_circuits m of
        [] \<Rightarrow> Inl (ValueError ''min() arg is an empty sequence'')
      | cid # rest \<Rightarrow>
          (case last_used_key (circuits m) cid of
             Inl e \<Rightarrow> Inl e
           | Inr k \<Rightarrow> py_min (circuits m) cid k rest))"

definition recycle :: "real \<Rightarrow> TorManager \<Rightarrow> (py_error + Circuit option) \<times> TorManager" where
  "recycle now m =
     (if active_circuits m \<noteq> [] then
        (case oldest_active m of
           Inl e \<Rightarrow> (Inl e, m)
         | Inr oldest_id \<Rightarrow>
             (case map_of (circuits m) oldest_id of
                None \<Rightarrow> (Inl (KeyError oldest_id), m)
              | Some c \<Rightarrow>
                  (let c' = c\<lparr>request_count := request_count c + 1, last_used := Some now\<rparr>
                   in (Inr (Some c'), m\<lparr>circuits := AList.update oldest_id c' (circuits m)\<rparr>))))
      else (Inr None, m))"

definition get_circuit ::
  "bool \<Rightarrow> real \<Rightarrow> ctl_reply \<Rightarrow> TorManager \<Rightarrow> (py_error + Circuit option) \<times> TorManager" where
  "get_circuit require_fresh now reply m =
     (let m1 = cleanup_circuits now m in
      case find_healthy require_fresh now (circuits m1) (active_circuits m1) of
        Inl e \<Rightarrow> (Inl e, m1)
      | Inr (Some (cid, c)) \<Rightarrow>
          (let c' = c\<lparr>request_count := request_count c + 1, last_used := Some now,
                      state := ACTIVE\<rparr>
           in (Inr (Some c'), m1\<lparr>circuits := AList.update cid c' (circuits m1)\<rparr>))
      | Inr None \<Rightarrow>
          (if int (length (active_circuits m1)) < max_circuits m1 then
             (case create_circuit now reply m1 of
                (None, m2) \<Rightarrow> recycle now m2
              | (Some cid, m2) \<Rightarrow>
                  (if cid \<noteq> [] then
                     (case map_of (circuits m2) cid of
                        None \<Rightarrow> (Inl (KeyError cid), m2)
                      | Some c \<Rightarrow>
                          (let c' = c\<lparr>request_count := 1, last_used := Some now\<rparr>
                           in (Inr (Some c'), m2\<lparr>circuits := AList.update cid c' (circuits m2)\<rparr>)))
                   else recycle now m2))
           else recycle now m1))"

subsection \<open>Sessions, marking dead, rotation, statistics\<close>

definition user_agents :: "string list" where
  "user_agents =
     [''Mozilla/5.0 (Windows NT 10.0; Win64; x64) AppleWebKit/537.36 (KHTML, like Gecko) Chrome/119.0.0.0 Safari/537.36'',
      ''Mozilla/5.0 (Macintosh; Intel Mac OS X 10_15_7) AppleWebKit/605.1.15 (KHTML, like Gecko) Version/17.1 Safari/605.1.15'',
      ''Mozilla/5.0 (X11; Linux x86_64; rv:109.0) Gecko/20100101 Firefox/119.0'']"

definition get_random_user_agent :: "nat \<Rightarrow> string" where
  "get_random_user_agent r = user_agents ! (r mod length user_agents)"

definition bind_session :: "Circuit \<Rightarrow> nat \<Rightarrow> TorManager \<Rightarrow> (py_error + Session) \<times> TorManager" where
  "bind_session c r m =
     (case map_of (session_cache m) (circuit_id c) of
        Some sess \<Rightarrow> (Inr sess, m)
      | None \<Rightarrow>
          (let sess = \<lparr>proxy_port = socks_port m, user_agent = get_random_user_agent r\<rparr>
           in (Inr sess, m\<lparr>session_cache := AList.update (circuit_id c) sess (session_cache m)\<rparr>)))"

definition get_http_session ::
  "Circuit option \<Rightarrow> real \<Rightarrow> ctl_reply \<Rightarrow> nat \<Rightarrow> TorManager \<Rightarrow> (py_error + Session) \<times> TorManager" where
  "get_http_session circuit now reply r m =
     (case circuit of
        Some c \<Rightarrow> bind_session c r m
      | None \<Rightarrow>
          (case get_circuit False now reply m of
             (Inl e, m1) \<Rightarrow> (Inl e, m1)
           | (Inr None, m1) \<Rightarrow> (Inl (RuntimeError ''No available circuits''), m1)
           | (Inr (Some c), m1) \<Rightarrow> bind_session c r m1))"

definition mark_circuit_dead :: "string \<Rightarrow> TorManager \<Rightarrow> TorManager" where
  "mark_circuit_dead cid m =
     (case map_of (circuits m) cid of
        None \<Rightarrow> m
      | Some c \<Rightarrow>
          m\<lparr>circuits := AList.update cid (c\<lparr>state := DEAD\<rparr>) (circuits m),
            active_circuits := remove1 cid (active_circuits m)\<rparr>)"

text \<open>
  \<open>get_browser\<close> acquires a circuit as \<open>get_http_session\<close> does and builds a browser
  from the socks port and a drawn user agent; it binds no session. Failures of the web
  driver itself are outside the pool and not modelled.
\<close>

record Browser =
  browser_socks_port :: int
  browser_user_agent :: string

definition get_browser ::
  "Circuit option \<Rightarrow> real \<Rightarrow> ctl_reply \<Rightarrow> nat \<Rightarrow> TorManager \<Rightarrow> (py_error + Browser) \<times> TorManager" where
  "get_browser circuit now reply r m =
     (case circuit of
        Some c \<Rightarrow>
          (Inr \<lparr>browser_socks_port = socks_port m, browser_user_agent = get_random_user_agent r\<rparr>, m)
      | None \<Rightarrow>
          (case get_circuit False now reply m of
             (Inl e, m1) \<Rightarrow> (Inl e, m1)
           | (Inr None, m1) \<Rightarrow> (Inl (RuntimeError ''No available circuits''), m1)
           | (Inr (Some c), m1) \<Rightarrow>
               (Inr \<lparr>browser_socks_port = socks_port m1, browser_user_agent = get_random_user_agent r\<rparr>,
                m1)))"

definition rotate_all_circuits :: "real \<Rightarrow> (nat \<Rightarrow> ctl_reply) \<Rightarrow> TorManager \<Rightarrow> TorManager" where
  "rotate_all_circuits now ctl m =
     initialize_circuits now ctl
       ((fold mark_circuit_dead (map fst (circuits m)) m)\<lparr>session_cache := []\<rparr>)"

text \<open>
  \<open>stop\<close> empties the session cache; the Tor process it terminates and the controller it
  drops are not part of the state modelled here.
\<close>

definition stop :: "TorManager \<Rightarrow> TorManager" where
  "stop m = m\<lparr>session_cache := []\<rparr>"

definition get_stats :: "real \<Rightarrow> TorManager \<Rightarrow> Stats" where
  "get_stats now m =
     \<lparr>total_circuits = int (length (circuits m)),
      active_count = int (length (active_circuits m)),
      healthy_circuits = int (length (filter (\<lambda>(cid, c). is_healthy now c) (circuits m))),
      sessions_cached = int (length (session_cache m))\<rparr>"

subsection \<open>Operations of the pool as a transition system\<close>

text \<open>
  The control channel assigns every circuit a unique identifier: a reply is fresh when
  the id it carries is not a key of the registry and differs from the ids of the replies
  before it in the same operation.
\<close>

fun replies_fresh :: "ctl_reply list \<Rightarrow> string list \<Rightarrow> bool" where
  "replies_fresh [] known = True"
| "replies_fresh (ControllerError # rs) known = replies_fresh rs known"
| "replies_fresh (Built cid path # rs) known = (cid \<notin> set known \<and> replies_fresh rs (cid # known))"

fun returned :: "py_error + Circuit option \<Rightarrow> Circuit option" where
  "returned (Inl e) = None"
| "returned (Inr r) = r"

text \<open>
  A pool state is the manager together with the latest clock reading. One step is one
  call of \<open>get_circuit\<close>, \<open>_cleanup_circuits\<close>, \<open>mark_circuit_dead\<close>,
  \<open>rotate_all_circuits\<close> or \<open>get_http_session\<close>; the clock never runs backwards. The
  label of a step is the circuit that \<open>get_circuit\<close> returned, if any.
\<close>

inductive step :: "real \<times> TorManager \<Rightarrow> Circuit option \<Rightarrow> real \<times> TorManager \<Rightarrow> bool" where
  step_get_circuit:
    "t \<le> now \<Longrightarrow> replies_fresh [reply] (map fst (circuits m)) \<Longrightarrow>
     get_circuit rf now reply m = (res, m') \<Longrightarrow> step (t, m) (returned res) (now, m')"
| step_cleanup:
    "t \<le> now \<Longrightarrow> step (t, m) None (now, cleanup_circuits now m)"
| step_mark_dead:
    "step (t, m) None (t, mark_circuit_dead cid m)"
| step_rotate:
    "t \<le> now \<Longrightarrow>
     replies_fresh (map ctl [0..<nat (min 3 (max_circuits m))]) (map fst (circuits m)) \<Longrightarrow>
     step (t, m) None (now, rotate_all_circuits now ctl m)"
| step_session:
    "t \<le> now \<Longrightarrow> replies_fresh [reply] (map fst (circuits m)) \<Longrightarrow>
     get_http_session copt now reply r m = (res, m') \<Longrightarrow> step (t, m) None (now, m')"

inductive reachable :: "real \<times> TorManager \<Rightarrow> bool" where
  reachable_start:
    "0 < now \<Longrightarrow> replies_fresh (map ctl [0..<nat (min 3 mc)]) [] \<Longrightarrow>
     reachable (now, start now ctl (TorManager_init sp cp pw mc lt))"
| reachable_step:
    "reachable p \<Longrightarrow> step p r q \<Longrightarrow> reachable q"

inductive run :: "real \<times> TorManager \<Rightarrow> Circuit option list \<Rightarrow> real \<times> TorManager \<Rightarrow> bool" where
  run_nil: "run p [] p"
| run_step: "step p r q \<Longrightarrow> run q rs q' \<Longrightarrow> run p (r # rs) q'"

subsection \<open>Notions of the specification\<close>

text \<open>The order of the state machine: Fresh, Active, Degraded, Dead.\<close>

fun rank :: "CircuitState \<Rightarrow> nat" where
  "rank FRESH = 0"
| "rank ACTIVE = 1"
| "rank DEGRADED = 2"
| "rank DEAD = 3"

text \<open>\<open>not_more_recent a b\<close>: the use time \<open>a\<close> is at least as old as \<open>b\<close>, an absent
  use time being older than every present one.\<close>

fun not_more_recent :: "real option \<Rightarrow> real option \<Rightarrow> bool" where
  "not_more_recent None b = True"
| "not_more_recent (Some x) None = False"
| "not_more_recent (Some x) (Some y) = (x \<le> y)"

subsection \<open>Auxiliary notions for the proofs\<close>

text \<open>What one iteration of the cleanup loop does to a circuit.\<close>

definition expire :: "real \<Rightarrow> int \<Rightarrow> Circuit \<Rightarrow> Circuit" where
  "expire now lt c =
     (if state c = DEAD then c
      else if age now c > real_of_int lt then c\<lparr>state := DEAD\<rparr>
      else if request_count c > 100 then c\<lparr>state := DEGRADED\<rparr>
      else c)"

text \<open>
  The representation invariant of the pool: the registry has one entry per id, filed
  under the circuit's own id; the active list has no duplicates, holds registered ids
  only, and none of a Dead circuit.
\<close>

definition wf_pool :: "TorManager \<Rightarrow> bool" where
  "wf_pool m \<longleftrightarrow>
     distinct (map fst (circuits m)) \<and>
     distinct (active_circuits m) \<and>
     set (active_circuits m) \<subseteq> set (map fst (circuits m)) \<and>
     (\<forall>cid c. map_of (circuits m) cid = Some c \<longrightarrow> circuit_id c = cid) \<and>
     (\<forall>cid c. cid \<in> set (active_circuits m) \<longrightarrow> map_of (circuits m) cid = Some c
         \<longrightarrow> state c \<noteq> DEAD)"

text \<open>
  How \<open>get_circuit\<close> changes the circuit it returns: the healthy scan counts the
  request, stamps the use time and sets the state to Active; the creation and the
  recycle path count the request and stamp the use time only.
\<close>

definition touched :: "real \<Rightarrow> TorManager \<Rightarrow> string \<Rightarrow> Circuit \<Rightarrow> Circuit \<Rightarrow> bool" where
  "touched now m cid c c' \<longleftrightarrow>
     map_of (circuits m) cid = Some c \<and> cid \<in> set (active_circuits m) \<and>
     ((is_healthy now c \<and>
       c' = c\<lparr>request_count := request_count c + 1, last_used := Some now, state := ACTIVE\<rparr>)
      \<or> c' = c\<lparr>request_count := request_count c + 1, last_used := Some now\<rparr>)"

definition touch :: "string \<Rightarrow> Circuit \<Rightarrow> TorManager \<Rightarrow> TorManager" where
  "touch cid c' m = m\<lparr>circuits := AList.update cid c' (circuits m)\<rparr>"

text \<open>The capacity bound, for a capacity of any sign.\<close>

definition within_capacity :: "TorManager \<Rightarrow> bool" where
  "within_capacity m \<longleftrightarrow> int (length (active_circuits m)) \<le> max 0 (max_circuits m)"

text \<open>What the history of a pool guarantees of every registered circuit at clock reading
  \<open>t\<close>: a Degraded circuit has served more than 100 requests, no circuit was created
  after \<open>t\<close>, and every recorded use time is positive.\<close>

definition circuit_ok :: "real \<Rightarrow> Circuit \<Rightarrow> bool" where
  "circuit_ok t c \<longleftrightarrow>
     (state c = DEGRADED \<longrightarrow> 100 < request_count c) \<and> created_at c \<le> t \<and>
     (\<forall>u. last_used c = Some u \<longrightarrow> 0 < u)"

text \<open>The active list is in creation order when \<open>created_le\<close> holds along it.\<close>

definition created_le :: "(string \<times> Circuit) list \<Rightarrow> string \<Rightarrow> string \<Rightarrow> bool" where
  "created_le reg a b \<longleftrightarrow>
     (\<forall>c d. map_of reg a = Some c \<longrightarrow> map_of reg b = Some d \<longrightarrow> created_at c \<le> created_at d)"

text \<open>The invariant of reachable pool states.\<close>

definition hist_inv :: "real \<Rightarrow> TorManager \<Rightarrow> bool" where
  "hist_inv t m \<longleftrightarrow>
     0 < t \<and> wf_pool m \<and>
     (\<forall>cid c. map_of (circuits m) cid = Some c \<longrightarrow> circuit_ok t c) \<and>
     sorted_wrt (created_le (circuits m)) (active_circuits m)"

text \<open>Every circuit registered in \<open>m\<close> is registered in \<open>m'\<close>, in a state that is not
  earlier in the order of the state machine.\<close>

definition grows :: "TorManager \<Rightarrow> TorManager \<Rightarrow> bool" where
  "grows m m' \<longleftrightarrow>
     (\<forall>i c. map_of (circuits m) i = Some c \<longrightarrow>
        (\<exists>c'. map_of (circuits m') i = Some c' \<and> rank (state c) \<le> rank (state c')))"

text \<open>The key \<open>last_used or 0\<close> of the recycle step, for a registered id.\<close>

definition lu_key :: "(string \<times> Circuit) list \<Rightarrow> string \<Rightarrow> real" where
  "lu_key reg cid =
     (case map_of reg cid of None \<Rightarrow> 0
      | Some c \<Rightarrow> (case last_used c of None \<Rightarrow> 0 | Some u \<Rightarrow> u))"

subsection \<open>Example pools\<close>


definition pool1 :: TorManager where
  "pool1 = start 1000 (\<lambda>i. Built ''1'' []) (TorManager_init 9050 9051 None 1 600)"

definition circuit1_used :: Circuit where
  "circuit1_used = (new_circuit 1000 ''1'' [])\<lparr>request_count := 1, last_used := Some 1001, state := ACTIVE\<rparr>"

definition session1 :: Session where
  "session1 = \<lparr>proxy_port = 9050, user_agent = get_random_user_agent 0\<rparr>"

definition pool1s :: TorManager where
  "pool1s = snd (get_http_session None 1001 ControllerError 0 pool1)"

definition pool1u :: TorManager where
  "pool1u = snd (get_circuit True 1001 ControllerError pool1)"

definition pool1d :: TorManager where
  "pool1d = mark_circuit_dead ''1'' pool1"

definition circuit2_new :: Circuit where
  "circuit2_new = (new_circuit 1001 ''2'' [])\<lparr>request_count := 1, last_used := Some 1001\<rparr>"

definition ids2 :: "nat \<Rightarrow> ctl_reply" where
  "ids2 i = Built (if i = 0 then ''1'' else ''2'') []"

definition pool2 :: TorManager where
  "pool2 = start 1000 ids2 (TorManager_init 9050 9051 None 2 1000)"

definition pool2a :: TorManager where
  "pool2a = snd (get_circuit False 1100 ControllerError pool2)"

definition ids3 :: "nat \<Rightarrow> ctl_reply" where
  "ids3 i = Built (if i = 0 then ''1'' else if i = 1 then ''2'' else ''3'') []"

definition pool3 :: TorManager where
  "pool3 = start 1000 ids3 (TorManager_init 9050 9051 None 10 600)"


definition pool300 :: TorManager where
  "pool300 = start 1000 (\<lambda>i. Built ''1'' []) (TorManager_init 9050 9051 None 1 300)"

section \<open>The health predicate\<close>

lemma is_healthy_iff:
  "is_healthy now c \<longleftrightarrow> state c \<noteq> DEAD \<and> now - created_at c \<le> 600 \<and> request_count c \<le> 100"
  by (auto simp: is_healthy_def age_def)

lemma upt_3: "[0..<3] = [0, Suc 0, Suc (Suc 0)]"
  by (simp add: upt_rec)

lemma pool300_eq:
  "pool300 = \<lparr>socks_port = 9050, control_port = 9051, control_password = None, max_circuits = 1,
      circuit_lifetime = 300, circuits = [(''1'', new_circuit 1000 ''1'' [])],
      active_circuits = [''1''], session_cache = []\<rparr>"
  by (simp add: pool300_def start_def initialize_circuits_def create_circuit_def TorManager_init_def)

lemma reachable_pool300: "reachable (1000, pool300)"
  unfolding pool300_def by (rule reachable_start) simp_all

text \<open>
  C2 (the code at the failing input). \<open>pool300\<close> is configured with a circuit lifetime
  of 300 seconds and started at time 1000. At time 1400 its circuit "1" is 400 seconds
  old, more than the configured lifetime: \<open>is_healthy\<close> is true of it all the same and
  \<open>get_stats\<close> counts it healthy, while \<open>_cleanup_circuits\<close> at the same instant marks
  it Dead and takes it off the active list.
\<close>

theorem is_healthy_ignores_configured_lifetime:
  "reachable (1000, pool300)
   \<and> map_of (circuits pool300) ''1'' = Some (new_circuit 1000 ''1'' [])
   \<and> 1400 - created_at (new_circuit 1000 ''1'' []) > real_of_int (circuit_lifetime pool300)
   \<and> is_healthy 1400 (new_circuit 1000 ''1'' [])
   \<and> healthy_circuits (get_stats 1400 pool300) = 1
   \<and> circuits (cleanup_circuits 1400 pool300) = [(''1'', (new_circuit 1000 ''1'' [])\<lparr>state := DEAD\<rparr>)]
   \<and> active_circuits (cleanup_circuits 1400 pool300) = []"
  using reachable_pool300
  by (simp add: pool300_eq get_stats_def cleanup_circuits_def is_healthy_def age_def new_circuit_def)

section \<open>Cleanup\<close>

lemma scan_expired_eq:
  "scan_expired now lt reg =
     (map (\<lambda>(cid, c). (cid, expire now lt c)) reg,
      map fst (filter (\<lambda>(cid, c). state (expire now lt c) = DEAD) reg))"
proof (induction reg)
  case Nil
  then show ?case by simp
next
  case (Cons a reg)
  obtain cid c where a: "a = (cid, c)" by (cases a)
  show ?case unfolding a by (simp add: Cons expire_def)
qed

lemma fold_remove1_distinct:
  "distinct xs \<Longrightarrow> fold remove1 ds xs = filter (\<lambda>x. x \<notin> set ds) xs"
proof (induction ds arbitrary: xs)
  case Nil
  then show ?case by simp
next
  case (Cons d ds)
  have "remove1 d xs = filter (\<lambda>x. x \<noteq> d) xs"
    using Cons.prems by (simp add: distinct_remove1_removeAll removeAll_filter_not_eq) metis
  then show ?case using Cons by (auto intro: filter_cong)
qed

lemma circuits_cleanup:
  "circuits (cleanup_circuits now m) = map (\<lambda>(cid, c). (cid, expire now (circuit_lifetime m) c)) (circuits m)"
  by (simp add: cleanup_circuits_def scan_expired_eq)

lemma active_cleanup:
  "active_circuits (cleanup_circuits now m) =
     fold remove1 (map fst (filter (\<lambda>(cid, c). state (expire now (circuit_lifetime m) c) = DEAD) (circuits m)))
       (active_circuits m)"
  by (simp add: cleanup_circuits_def scan_expired_eq)

lemma map_of_cleanup:
  "map_of (circuits (cleanup_circuits now m)) cid =
     map_option (expire now (circuit_lifetime m)) (map_of (circuits m) cid)"
  by (simp add: circuits_cleanup map_of_map)

lemma keys_cleanup: "map fst (circuits (cleanup_circuits now m)) = map fst (circuits m)"
  by (simp add: circuits_cleanup split_def comp_def)

lemma cleanup_fields:
  "max_circuits (cleanup_circuits now m) = max_circuits m"
  "circuit_lifetime (cleanup_circuits now m) = circuit_lifetime m"
  "session_cache (cleanup_circuits now m) = session_cache m"
  "socks_port (cleanup_circuits now m) = socks_port m"
  by (simp_all add: cleanup_circuits_def split: prod.splits)

lemma active_cleanup_filter:
  assumes "distinct (active_circuits m)"
  shows "active_circuits (cleanup_circuits now m) =
     filter (\<lambda>x. x \<notin> fst ` {(cid, c) \<in> set (circuits m). state (expire now (circuit_lifetime m) c) = DEAD})
       (active_circuits m)"
  using assms by (simp add: active_cleanup fold_remove1_distinct split_def)

lemma active_cleanup_not_dead:
  assumes "distinct (active_circuits m)" 
    and "cid \<in> set (active_circuits (cleanup_circuits now m))"
    and "map_of (circuits (cleanup_circuits now m)) cid = Some c"
  shows "state c \<noteq> DEAD"
proof
  assume d: "state c = DEAD"
  from assms(3) obtain c0 where c0: "map_of (circuits m) cid = Some c0" "c = expire now (circuit_lifetime m) c0"
    by (auto simp: map_of_cleanup)
  then have "(cid, c0) \<in> set (circuits m)" by (simp add: map_of_SomeD)
  with d c0 have "cid \<in> fst ` {(cid, c) \<in> set (circuits m). state (expire now (circuit_lifetime m) c) = DEAD}"
    by force
  with assms(1,2) show False by (simp add: active_cleanup_filter)
qed

lemma wf_pool_cleanup: "wf_pool m \<Longrightarrow> wf_pool (cleanup_circuits now m)"
  unfolding wf_pool_def
  apply (intro conjI)
  apply (simp add: keys_cleanup)
     apply (simp add: active_cleanup_filter)
    apply (auto simp add: active_cleanup_filter keys_cleanup)[1]
   apply (auto simp: map_of_cleanup expire_def)[1]
  using active_cleanup_not_dead apply blast
  done

section \<open>The shape of an acquisition\<close>

lemma find_healthy_Some:
  "find_healthy rf now reg act = Inr (Some (cid, c)) \<Longrightarrow>
     cid \<in> set act \<and> map_of reg cid = Some c \<and> is_healthy now c \<and> (rf \<longrightarrow> request_count c \<le> 0)"
  by (induction act) (auto split: option.splits if_splits)

lemma py_min_mem: "py_min reg best bk rest = Inr x \<Longrightarrow> x = best \<or> x \<in> set rest"
  by (induction rest arbitrary: best bk) (auto split: sum.splits if_splits)

lemma oldest_active_mem: "oldest_active m = Inr x \<Longrightarrow> x \<in> set (active_circuits m)"
  by (auto simp: oldest_active_def split: list.splits sum.splits dest: py_min_mem)

lemma recycle_result:
  assumes "recycle now m = (res, m')"
  shows "(m' = m \<and> returned res = None) \<or>
         (\<exists>cid c c'. touched now m cid c c' \<and> res = Inr (Some c') \<and> m' = touch cid c' m)"
  using assms
  by (auto simp: recycle_def touched_def touch_def Let_def
      split: if_splits sum.splits option.splits dest: oldest_active_mem)

lemma create_circuit_Built:
  "create_circuit now (Built cid path) m =
     (Some cid, m\<lparr>circuits := AList.update cid (new_circuit now cid path) (circuits m),
                  active_circuits := active_circuits m @ [cid]\<rparr>)"
  by (simp add: create_circuit_def)

lemma create_circuit_Error: "create_circuit now ControllerError m = (None, m)"
  by (simp add: create_circuit_def)

lemma get_circuit_result:
  assumes "get_circuit rf now reply m = (res, m')"
  shows "\<exists>mc. (mc = cleanup_circuits now m \<or>
               mc = snd (create_circuit now reply (cleanup_circuits now m)) \<and>
               int (length (active_circuits (cleanup_circuits now m))) < max_circuits m) \<and>
          ((m' = mc \<and> returned res = None) \<or>
           (\<exists>cid c c'. touched now mc cid c c' \<and> res = Inr (Some c') \<and> m' = touch cid c' mc))"
proof -
  let ?m1 = "cleanup_circuits now m"
  show ?thesis
  proof (cases "find_healthy rf now (circuits ?m1) (active_circuits ?m1)")
    case (Inl e)
    with assms show ?thesis by (auto simp: get_circuit_def)
  next
    case (Inr found)
    show ?thesis
    proof (cases found)
      case (Some p)
      obtain cid c where p: "p = (cid, c)" by (cases p)
      from Inr Some p have f: "find_healthy rf now (circuits ?m1) (active_circuits ?m1) = Inr (Some (cid, c))"
        by simp
      from find_healthy_Some [OF f] have "touched now ?m1 cid c
          (c\<lparr>request_count := request_count c + 1, last_used := Some now, state := ACTIVE\<rparr>)"
        by (simp add: touched_def)
      moreover from assms f have "res = Inr (Some (c\<lparr>request_count := request_count c + 1, last_used := Some now, state := ACTIVE\<rparr>))"
        "m' = touch cid (c\<lparr>request_count := request_count c + 1, last_used := Some now, state := ACTIVE\<rparr>) ?m1"
        by (auto simp: get_circuit_def Let_def touch_def)
      ultimately show ?thesis by blast
    next
      case None
      note f = Inr [unfolded None]
      show ?thesis
      proof (cases "int (length (active_circuits ?m1)) < max_circuits ?m1")
        case False
        with assms f have "recycle now ?m1 = (res, m')" by (simp add: get_circuit_def Let_def)
        from recycle_result [OF this] show ?thesis by blast
      next
        case True
        then have lt: "int (length (active_circuits ?m1)) < max_circuits m" by (simp add: cleanup_fields)
        show ?thesis
        proof (cases reply)
          case ControllerError
          with assms f True have "recycle now ?m1 = (res, m')"
            by (simp add: get_circuit_def Let_def create_circuit_Error)
          from recycle_result [OF this] show ?thesis by blast
        next
          case (Built cid path)
          let ?m2 = "snd (create_circuit now reply ?m1)"
          show ?thesis
          proof (cases "cid = []")
            case True
            with assms f Built \<open>int (length (active_circuits ?m1)) < max_circuits ?m1\<close>
            have "recycle now ?m2 = (res, m')"
              by (simp add: get_circuit_def Let_def create_circuit_Built)
            from recycle_result [OF this] lt show ?thesis by blast
          next
            case False
            let ?c = "new_circuit now cid path"
            have t: "touched now ?m2 cid ?c (?c\<lparr>request_count := request_count ?c + 1, last_used := Some now\<rparr>)"
              by (simp add: touched_def Built create_circuit_Built update_conv')
            have "?c\<lparr>request_count := request_count ?c + 1, last_used := Some now\<rparr> = ?c\<lparr>request_count := 1, last_used := Some now\<rparr>"
              by (simp add: new_circuit_def)
            with assms f Built False \<open>int (length (active_circuits ?m1)) < max_circuits ?m1\<close>
            have "res = Inr (Some (?c\<lparr>request_count := request_count ?c + 1, last_used := Some now\<rparr>))"
              "m' = touch cid (?c\<lparr>request_count := request_count ?c + 1, last_used := Some now\<rparr>) ?m2"
              by (simp_all add: get_circuit_def Let_def create_circuit_Built update_conv' touch_def)
            with t lt show ?thesis by blast
          qed
        qed
      qed
    qed
  qed
qed

section \<open>The representation invariant\<close>

lemma replies_fresh_set: "set k = set k' \<Longrightarrow> replies_fresh rs k = replies_fresh rs k'"
proof (induction rs k arbitrary: k' rule: replies_fresh.induct)
  case (1 known)
  then show ?case by simp
next
  case (2 rs known)
  then show ?case by simp
next
  case (3 cid path rs known)
  have "replies_fresh rs (cid # known) = replies_fresh rs (cid # k')"
    by (rule "3.IH") (simp add: "3.prems")
  with "3.prems" show ?case by simp
qed

lemma keys_create:
  "set (map fst (circuits (snd (create_circuit now r m)))) =
     (case r of ControllerError \<Rightarrow> set (map fst (circuits m))
      | Built cid path \<Rightarrow> insert cid (set (map fst (circuits m))))"
  by (cases r) (auto simp: create_circuit_def update_keys)

lemma replies_fresh_head: "replies_fresh (r # rs) k \<Longrightarrow> replies_fresh [r] k"
  by (cases r) auto

lemma replies_fresh_tail:
  assumes "replies_fresh (r # rs) (map fst (circuits m))"
  shows "replies_fresh rs (map fst (circuits (snd (create_circuit now r m))))"
proof (cases r)
  case ControllerError
  with assms show ?thesis by (simp add: create_circuit_def)
next
  case (Built cid path)
  with assms have "replies_fresh rs (cid # map fst (circuits m))" by simp
  moreover have "set (cid # map fst (circuits m)) = set (map fst (circuits (snd (create_circuit now r m))))"
    using keys_create [of now r m] Built by simp
  ultimately show ?thesis using replies_fresh_set by blast
qed

lemma fold_create_inv:
  assumes "replies_fresh (map ctl js) (map fst (circuits m))" and "P m"
    and "\<And>r m. P m \<Longrightarrow> replies_fresh [r] (map fst (circuits m)) \<Longrightarrow> P (snd (create_circuit now r m))"
  shows "P (fold (\<lambda>i m'. snd (create_circuit now (ctl i) m')) js m)"
  using assms(1,2)
proof (induction js arbitrary: m)
  case Nil
  then show ?case by simp
next
  case (Cons j js)
  from Cons.prems(1) have h: "replies_fresh [ctl j] (map fst (circuits m))"
    and t: "replies_fresh (map ctl js) (map fst (circuits (snd (create_circuit now (ctl j) m))))"
    using replies_fresh_head replies_fresh_tail by auto
  have "P (snd (create_circuit now (ctl j) m))" using assms(3) Cons.prems(2) h by blast
  from Cons.IH [OF t this] show ?case by simp
qed

lemma create_fields:
  "max_circuits (snd (create_circuit now r m)) = max_circuits m"
  "circuit_lifetime (snd (create_circuit now r m)) = circuit_lifetime m"
  "session_cache (snd (create_circuit now r m)) = session_cache m"
  "socks_port (snd (create_circuit now r m)) = socks_port m"
  by (cases r; simp add: create_circuit_def)+

lemma wf_pool_create:
  assumes "wf_pool m" and "replies_fresh [r] (map fst (circuits m))"
  shows "wf_pool (snd (create_circuit now r m))"
proof (cases r)
  case ControllerError
  with assms show ?thesis by (simp add: create_circuit_def)
next
  case (Built cid path)
  let ?m2 = "snd (create_circuit now r m)"
  from Built assms(2) have fresh: "cid \<notin> set (map fst (circuits m))" by simp
  with assms(1) have na: "cid \<notin> set (active_circuits m)" by (auto simp: wf_pool_def)
  from fresh have k: "map fst (circuits ?m2) = map fst (circuits m) @ [cid]"
    by (simp add: Built create_circuit_Built update_keys)
  have a: "active_circuits ?m2 = active_circuits m @ [cid]"
    by (simp add: Built create_circuit_Built)
  have l: "map_of (circuits ?m2) = (map_of (circuits m))(cid \<mapsto> new_circuit now cid path)"
    by (simp add: Built create_circuit_Built update_conv')
  have n: "circuit_id (new_circuit now cid path) = cid" "state (new_circuit now cid path) = FRESH"
    by (simp_all add: new_circuit_def)
  show ?thesis
    unfolding wf_pool_def k a l
    using assms(1) fresh na n unfolding wf_pool_def by auto
qed

lemma wf_pool_touch:
  assumes "wf_pool m" and "touched now m cid c c'"
  shows "wf_pool (touch cid c' m)"
proof -
  from assms(2) have l: "map_of (circuits m) cid = Some c" by (simp add: touched_def)
  then have "cid \<in> set (map fst (circuits m))" by (metis map_of_eq_None_iff option.distinct(1) set_map)
  then have k: "map fst (circuits (touch cid c' m)) = map fst (circuits m)"
    by (simp add: touch_def update_keys)
  have a: "active_circuits (touch cid c' m) = active_circuits m" by (simp add: touch_def)
  have l': "map_of (circuits (touch cid c' m)) = (map_of (circuits m))(cid \<mapsto> c')"
    by (simp add: touch_def update_conv')
  from assms(2) have idc: "circuit_id c' = circuit_id c" and st: "state c' = ACTIVE \<or> state c' = state c"
    by (auto simp: touched_def)
  show ?thesis
    unfolding wf_pool_def k a l'
    using assms(1) l idc st unfolding wf_pool_def by auto
qed

lemma touch_fields:
  "max_circuits (touch cid c m) = max_circuits m"
  "circuit_lifetime (touch cid c m) = circuit_lifetime m"
  "session_cache (touch cid c m) = session_cache m"
  "active_circuits (touch cid c m) = active_circuits m"
  "socks_port (touch cid c m) = socks_port m"
  by (simp_all add: touch_def)

lemma get_circuit_inv:
  assumes g: "get_circuit rf now reply m = (res, m')"
    and "P (cleanup_circuits now m)"
    and "\<And>m1. P m1 \<Longrightarrow> m1 = cleanup_circuits now m \<Longrightarrow>
           int (length (active_circuits m1)) < max_circuits m1 \<Longrightarrow> P (snd (create_circuit now reply m1))"
    and "\<And>mc cid c c'. P mc \<Longrightarrow> touched now mc cid c c' \<Longrightarrow> P (touch cid c' mc)"
  shows "P m'"
  using get_circuit_result [OF g] assms(2-4) by (auto simp: cleanup_fields)

lemma wf_pool_get_circuit:
  assumes "wf_pool m" and "replies_fresh [reply] (map fst (circuits m))"
    and "get_circuit rf now reply m = (res, m')"
  shows "wf_pool m'"
proof (rule get_circuit_inv [OF assms(3)])
  show "wf_pool (cleanup_circuits now m)" using assms(1) by (rule wf_pool_cleanup)
next
  fix m1 assume "wf_pool m1" "m1 = cleanup_circuits now m"
  then show "wf_pool (snd (create_circuit now reply m1))"
    using assms(2) by (simp add: wf_pool_create keys_cleanup)
next
  fix mc cid c c' assume "wf_pool mc" "touched now mc cid c c'"
  then show "wf_pool (touch cid c' mc)" by (rule wf_pool_touch)
qed

lemma mark_dead_Some:
  assumes "map_of (circuits m) cid = Some c"
  shows "map fst (circuits (mark_circuit_dead cid m)) = map fst (circuits m)"
    and "active_circuits (mark_circuit_dead cid m) = remove1 cid (active_circuits m)"
    and "map_of (circuits (mark_circuit_dead cid m)) = (map_of (circuits m))(cid \<mapsto> c\<lparr>state := DEAD\<rparr>)"
proof -
  from assms have "cid \<in> set (map fst (circuits m))" by (metis map_of_eq_None_iff option.distinct(1) set_map)
  then show "map fst (circuits (mark_circuit_dead cid m)) = map fst (circuits m)"
    using assms by (simp add: mark_circuit_dead_def update_keys)
qed (simp_all add: assms mark_circuit_dead_def update_conv')

lemma mark_dead_None: "map_of (circuits m) cid = None \<Longrightarrow> mark_circuit_dead cid m = m"
  by (simp add: mark_circuit_dead_def)

lemma mark_dead_fields:
  "max_circuits (mark_circuit_dead cid m) = max_circuits m"
  "circuit_lifetime (mark_circuit_dead cid m) = circuit_lifetime m"
  "session_cache (mark_circuit_dead cid m) = session_cache m"
  "socks_port (mark_circuit_dead cid m) = socks_port m"
  by (simp_all add: mark_circuit_dead_def split: option.splits)

lemma wf_pool_mark_dead: "wf_pool m \<Longrightarrow> wf_pool (mark_circuit_dead cid m)"
proof (cases "map_of (circuits m) cid")
  case None
  assume "wf_pool m"
  with None show ?thesis by (simp add: mark_dead_None)
next
  case (Some c)
  assume wf: "wf_pool m"
  show ?thesis
    unfolding wf_pool_def mark_dead_Some [OF Some]
    using wf Some unfolding wf_pool_def by (auto dest: notin_set_remove1)
qed

lemma wf_pool_session_cache: "wf_pool (m\<lparr>session_cache := sc\<rparr>) = wf_pool m"
  by (simp add: wf_pool_def)

lemma wf_pool_bind_session: "bind_session c r m = (res, m') \<Longrightarrow> wf_pool m \<Longrightarrow> wf_pool m'"
  by (auto simp: bind_session_def Let_def wf_pool_session_cache split: option.splits)

lemma keys_bind_session: "bind_session c r m = (res, m') \<Longrightarrow> circuits m' = circuits m \<and> active_circuits m' = active_circuits m \<and> max_circuits m' = max_circuits m \<and> circuit_lifetime m' = circuit_lifetime m"
  by (auto simp: bind_session_def Let_def split: option.splits)

lemma wf_pool_fold_mark_dead: "wf_pool m \<Longrightarrow> wf_pool (fold mark_circuit_dead ks m)"
  by (induction ks arbitrary: m) (auto intro: wf_pool_mark_dead)

lemma wf_pool_initialize:
  assumes "wf_pool m" and "replies_fresh (map ctl [0..<nat (min 3 (max_circuits m))]) (map fst (circuits m))"
  shows "wf_pool (initialize_circuits now ctl m)"
  unfolding initialize_circuits_def
  using assms(2,1) wf_pool_create by (rule fold_create_inv)

lemma keys_mark_dead: "map fst (circuits (mark_circuit_dead cid m)) = map fst (circuits m)"
  by (cases "map_of (circuits m) cid") (simp_all add: mark_dead_None mark_dead_Some)

lemma keys_fold_mark_dead: "map fst (circuits (fold mark_circuit_dead ks m)) = map fst (circuits m)"
  by (induction ks arbitrary: m) (simp_all add: keys_mark_dead)

lemma fold_mark_dead_fields:
  "max_circuits (fold mark_circuit_dead ks m) = max_circuits m"
  "circuit_lifetime (fold mark_circuit_dead ks m) = circuit_lifetime m"
  "session_cache (fold mark_circuit_dead ks m) = session_cache m"
  by (induction ks arbitrary: m) (simp_all add: mark_dead_fields)

lemma wf_pool_rotate:
  assumes "wf_pool m"
    and "replies_fresh (map ctl [0..<nat (min 3 (max_circuits m))]) (map fst (circuits m))"
  shows "wf_pool (rotate_all_circuits now ctl m)"
  unfolding rotate_all_circuits_def
  by (rule wf_pool_initialize)
     (simp_all add: wf_pool_session_cache wf_pool_fold_mark_dead assms keys_fold_mark_dead fold_mark_dead_fields)

lemma wf_pool_init: "wf_pool (TorManager_init sp cp pw mc lt)"
  by (simp add: wf_pool_def TorManager_init_def)

lemma wf_pool_start:
  assumes "replies_fresh (map ctl [0..<nat (min 3 mc)]) []"
  shows "wf_pool (start now ctl (TorManager_init sp cp pw mc lt))"
  unfolding start_def
  by (rule wf_pool_initialize) (simp_all add: wf_pool_init, simp_all add: TorManager_init_def assms)

lemma wf_pool_get_http_session:
  assumes "wf_pool m" and "replies_fresh [reply] (map fst (circuits m))"
    and "get_http_session copt now reply r m = (res, m')"
  shows "wf_pool m'"
proof (cases copt)
  case (Some c)
  with assms show ?thesis by (auto simp: get_http_session_def dest: wf_pool_bind_session)
next
  case None
  obtain gr m1 where g: "get_circuit False now reply m = (gr, m1)" by (cases "get_circuit False now reply m")
  from wf_pool_get_circuit [OF assms(1,2) g] have "wf_pool m1" .
  with assms(3) None g show ?thesis
    by (auto simp: get_http_session_def split: sum.splits option.splits dest: wf_pool_bind_session)
qed

lemma wf_pool_step: "step p r q \<Longrightarrow> wf_pool (snd p) \<Longrightarrow> wf_pool (snd q)"
  by (induction rule: step.induct)
     (auto intro: wf_pool_get_circuit wf_pool_cleanup wf_pool_mark_dead wf_pool_rotate
        wf_pool_get_http_session)

lemma reachable_wf_pool: "reachable p \<Longrightarrow> wf_pool (snd p)"
  by (induction rule: reachable.induct) (auto intro: wf_pool_start wf_pool_step)

lemma touched_not_dead:
  assumes "wf_pool mc" and "touched now mc cid c c'"
  shows "state c' \<noteq> DEAD"
  using assms by (auto simp: wf_pool_def touched_def)

text \<open>
  C1. In every reachable pool state, whatever the clock reading and the reply of the
  control channel, a circuit returned by \<open>get_circuit\<close> (found healthy, newly created or
  recycled) is not in state Dead.
\<close>

theorem get_circuit_never_dead:
  assumes "reachable (t, m)" and "get_circuit rf now reply m = (Inr (Some c), m')"
  shows "state c \<noteq> DEAD"
proof -
  from assms(1) have wf: "wf_pool m" using reachable_wf_pool by fastforce
  then have wf1: "wf_pool (cleanup_circuits now m)" by (rule wf_pool_cleanup)
  from get_circuit_result [OF assms(2)] obtain mc cid c0 where
    mc: "mc = cleanup_circuits now m \<or> mc = snd (create_circuit now reply (cleanup_circuits now m))"
    and t: "touched now mc cid c0 c" by auto
  then have l: "map_of (circuits mc) cid = Some c0" and a: "cid \<in> set (active_circuits mc)"
    and s: "state c = ACTIVE \<or> state c = state c0"
    by (auto simp: touched_def)
  have "state c0 \<noteq> DEAD"
  proof (cases "mc = cleanup_circuits now m")
    case True
    with wf1 l a show ?thesis by (auto simp: wf_pool_def)
  next
    case False
    with mc have mc2: "mc = snd (create_circuit now reply (cleanup_circuits now m))" by simp
    show ?thesis
    proof (cases reply)
      case ControllerError
      with mc2 have "mc = cleanup_circuits now m" by (simp add: create_circuit_Error)
      with False show ?thesis by simp
    next
      case (Built nid path)
      show ?thesis
      proof (cases "cid = nid")
        case True
        with l mc2 Built have "c0 = new_circuit now nid path"
          by (simp add: create_circuit_Built update_conv')
        then show ?thesis by (simp add: new_circuit_def)
      next
        case False
        with l a mc2 Built have "map_of (circuits (cleanup_circuits now m)) cid = Some c0"
          "cid \<in> set (active_circuits (cleanup_circuits now m))"
          by (simp_all add: create_circuit_Built update_conv')
        with wf1 show ?thesis by (auto simp: wf_pool_def)
      qed
    qed
  qed
  with s show ?thesis by auto
qed

lemma pool1_eq:
  "pool1 = \<lparr>socks_port = 9050, control_port = 9051, control_password = None, max_circuits = 1,
      circuit_lifetime = 600, circuits = [(''1'', new_circuit 1000 ''1'' [])],
      active_circuits = [''1''], session_cache = []\<rparr>"
  by (simp add: pool1_def start_def initialize_circuits_def create_circuit_def TorManager_init_def)

lemma reachable_pool1: "reachable (1000, pool1)"
  unfolding pool1_def by (rule reachable_start) simp_all

lemma get_circuit_pool1:
  "get_circuit False 1001 ControllerError pool1 =
     (Inr (Some ((new_circuit 1000 ''1'' [])\<lparr>request_count := 1, last_used := Some 1001, state := ACTIVE\<rparr>)),
      pool1\<lparr>circuits := [(''1'', (new_circuit 1000 ''1'' [])\<lparr>request_count := 1, last_used := Some 1001, state := ACTIVE\<rparr>)]\<rparr>)"
  by (simp add: pool1_eq get_circuit_def cleanup_circuits_def is_healthy_def age_def new_circuit_def Let_def)

theorem get_circuit_never_dead_witness:
  "reachable (1000, pool1) \<and>
   returned (fst (get_circuit False 1001 ControllerError pool1)) \<noteq> None \<and>
   state (the (returned (fst (get_circuit False 1001 ControllerError pool1)))) \<noteq> DEAD"
  using get_circuit_never_dead [OF reachable_pool1 get_circuit_pool1] reachable_pool1
  by (simp add: get_circuit_pool1)

section \<open>Capacity of the active list, and rotation\<close>

lemma length_fold_remove1: "length (fold remove1 ds xs) \<le> length xs"
proof (induction ds arbitrary: xs)
  case Nil
  then show ?case by simp
next
  case (Cons d ds)
  have "length (fold remove1 ds (remove1 d xs)) \<le> length (remove1 d xs)" by (rule Cons.IH)
  also have "\<dots> \<le> length xs" by (cases "d \<in> set xs") (simp_all add: length_remove1)
  finally show ?case by simp
qed

lemma length_active_cleanup:
  "length (active_circuits (cleanup_circuits now m)) \<le> length (active_circuits m)"
  by (simp add: active_cleanup length_fold_remove1)

lemma length_active_create:
  "length (active_circuits (snd (create_circuit now r m))) =
     length (active_circuits m) + (if r = ControllerError then 0 else 1)"
  by (cases r) (simp_all add: create_circuit_def)

lemma length_active_fold_create_le:
  "length (active_circuits (fold (\<lambda>i m'. snd (create_circuit now (ctl i) m')) js m))
     \<le> length (active_circuits m) + length js"
proof (induction js arbitrary: m)
  case Nil
  then show ?case by simp
next
  case (Cons j js)
  have "length (active_circuits (fold (\<lambda>i m'. snd (create_circuit now (ctl i) m')) js
          (snd (create_circuit now (ctl j) m))))
        \<le> length (active_circuits (snd (create_circuit now (ctl j) m))) + length js"
    by (rule Cons.IH)
  then show ?case by (simp add: length_active_create split: if_splits)
qed

lemma length_active_fold_create_eq:
  assumes "\<forall>j \<in> set js. ctl j \<noteq> ControllerError"
  shows "length (active_circuits (fold (\<lambda>i m'. snd (create_circuit now (ctl i) m')) js m))
     = length (active_circuits m) + length js"
  using assms
proof (induction js arbitrary: m)
  case Nil
  then show ?case by simp
next
  case (Cons j js)
  then have "length (active_circuits (fold (\<lambda>i m'. snd (create_circuit now (ctl i) m')) js
          (snd (create_circuit now (ctl j) m))))
        = length (active_circuits (snd (create_circuit now (ctl j) m))) + length js"
    by simp
  with Cons.prems show ?case by (simp add: length_active_create)
qed

lemma fold_create_fields:
  "max_circuits (fold (\<lambda>i m'. snd (create_circuit now (ctl i) m')) js m) = max_circuits m"
  "session_cache (fold (\<lambda>i m'. snd (create_circuit now (ctl i) m')) js m) = session_cache m"
  "circuit_lifetime (fold (\<lambda>i m'. snd (create_circuit now (ctl i) m')) js m) = circuit_lifetime m"
  by (induction js arbitrary: m) (simp_all add: create_fields)

lemma initialize_fields:
  "max_circuits (initialize_circuits now ctl m) = max_circuits m"
  "session_cache (initialize_circuits now ctl m) = session_cache m"
  "circuit_lifetime (initialize_circuits now ctl m) = circuit_lifetime m"
  by (simp_all add: initialize_circuits_def fold_create_fields)

lemma length_active_initialize_le:
  "int (length (active_circuits (initialize_circuits now ctl m)))
     \<le> int (length (active_circuits m)) + max 0 (min 3 (max_circuits m))"
  using length_active_fold_create_le [of now ctl "[0..<nat (min 3 (max_circuits m))]" m]
  by (simp add: initialize_circuits_def)

lemma length_active_initialize_eq:
  assumes "\<forall>i < nat (min 3 (max_circuits m)). ctl i \<noteq> ControllerError"
  shows "int (length (active_circuits (initialize_circuits now ctl m)))
     = int (length (active_circuits m)) + max 0 (min 3 (max_circuits m))"
  using length_active_fold_create_eq [of "[0..<nat (min 3 (max_circuits m))]" ctl now m] assms
  by (simp add: initialize_circuits_def)

lemma active_fold_mark_dead:
  assumes "wf_pool m" and "set ks \<subseteq> set (map fst (circuits m))"
  shows "active_circuits (fold mark_circuit_dead ks m) = filter (\<lambda>x. x \<notin> set ks) (active_circuits m)"
  using assms
proof (induction ks arbitrary: m)
  case Nil
  then show ?case by simp
next
  case (Cons k ks)
  from Cons.prems(2) obtain c where c: "map_of (circuits m) k = Some c"
    by (metis list.set_intros(1) map_of_eq_None_iff not_Some_eq set_map subsetD)
  from Cons.prems(1) have d: "distinct (active_circuits m)" by (simp add: wf_pool_def)
  have a: "active_circuits (mark_circuit_dead k m) = filter (\<lambda>x. x \<noteq> k) (active_circuits m)"
    using d by (simp add: mark_dead_Some [OF c] distinct_remove1_removeAll removeAll_filter_not_eq) metis
  have "active_circuits (fold mark_circuit_dead ks (mark_circuit_dead k m))
      = filter (\<lambda>x. x \<notin> set ks) (active_circuits (mark_circuit_dead k m))"
    using Cons.prems by (intro Cons.IH) (simp_all add: wf_pool_mark_dead keys_mark_dead)
  then show ?case by (auto simp: a intro: filter_cong)
qed

lemma active_mark_all_dead:
  assumes "wf_pool m"
  shows "active_circuits (fold mark_circuit_dead (map fst (circuits m)) m) = []"
proof -
  from assms have "set (active_circuits m) \<subseteq> set (map fst (circuits m))" by (simp add: wf_pool_def)
  then show ?thesis using active_fold_mark_dead [OF assms subset_refl] by (auto simp: filter_empty_conv)
qed

lemma length_active_rotate_le:
  assumes "wf_pool m"
  shows "int (length (active_circuits (rotate_all_circuits now ctl m))) \<le> max 0 (min 3 (max_circuits m))"
  using length_active_initialize_le [of now ctl
      "(fold mark_circuit_dead (map fst (circuits m)) m)\<lparr>session_cache := []\<rparr>"]
  by (simp add: rotate_all_circuits_def active_mark_all_dead [OF assms] fold_mark_dead_fields)

lemma length_active_start_le:
  "int (length (active_circuits (start now ctl (TorManager_init sp cp pw mc lt)))) \<le> max 0 (min 3 mc)"
  using length_active_initialize_le [of now ctl "TorManager_init sp cp pw mc lt"]
  by (simp add: start_def TorManager_init_def)

lemma within_capacity_get_circuit:
  assumes "within_capacity m" and "get_circuit rf now reply m = (res, m')"
  shows "within_capacity m'"
proof (rule get_circuit_inv [OF assms(2)])
  show "within_capacity (cleanup_circuits now m)"
    using assms(1) length_active_cleanup [of now m] by (simp add: within_capacity_def cleanup_fields)
next
  fix m1 :: TorManager assume "int (length (active_circuits m1)) < max_circuits m1"
  then show "within_capacity (snd (create_circuit now reply m1))"
    by (simp add: within_capacity_def length_active_create create_fields)
next
  fix mc :: TorManager and cid c c' assume "within_capacity mc"
  then show "within_capacity (touch cid c' mc)" by (simp add: within_capacity_def touch_fields)
qed

lemma within_capacity_bind_session:
  "bind_session c r m = (res, m') \<Longrightarrow> within_capacity m \<Longrightarrow> within_capacity m'"
  using keys_bind_session [of c r m res m'] by (simp add: within_capacity_def)

lemma within_capacity_get_http_session:
  assumes "within_capacity m" and "get_http_session copt now reply r m = (res, m')"
  shows "within_capacity m'"
proof (cases copt)
  case (Some c)
  with assms show ?thesis by (auto simp: get_http_session_def dest: within_capacity_bind_session)
next
  case None
  obtain gr m1 where g: "get_circuit False now reply m = (gr, m1)" by (cases "get_circuit False now reply m")
  from within_capacity_get_circuit [OF assms(1) g] have "within_capacity m1" .
  with assms(2) None g show ?thesis
    by (auto simp: get_http_session_def split: sum.splits option.splits dest: within_capacity_bind_session)
qed

lemma within_capacity_mark_dead: "within_capacity m \<Longrightarrow> within_capacity (mark_circuit_dead cid m)"
proof (cases "map_of (circuits m) cid")
  case None
  assume "within_capacity m"
  with None show ?thesis by (simp add: mark_dead_None)
next
  case (Some c)
  assume "within_capacity m"
  moreover have "length (remove1 cid (active_circuits m)) \<le> length (active_circuits m)"
    by (cases "cid \<in> set (active_circuits m)") (simp_all add: length_remove1)
  ultimately show ?thesis by (simp add: within_capacity_def mark_dead_Some [OF Some] mark_dead_fields)
qed

lemma within_capacity_step: "step p r q \<Longrightarrow> wf_pool (snd p) \<Longrightarrow> within_capacity (snd p) \<Longrightarrow> within_capacity (snd q)"
proof (induction rule: step.induct)
  case (step_get_circuit t now reply m rf res m')
  then show ?case using within_capacity_get_circuit by auto
next
  case (step_cleanup t now m)
  then show ?case using length_active_cleanup [of now m] by (simp add: within_capacity_def cleanup_fields)
next
  case (step_mark_dead t m cid)
  then show ?case by (simp add: within_capacity_mark_dead)
next
  case (step_rotate t now ctl m)
  then show ?case using length_active_rotate_le [of m now ctl]
    by (simp add: within_capacity_def rotate_all_circuits_def initialize_fields fold_mark_dead_fields)
next
  case (step_session t now reply m copt r res m')
  then show ?case using within_capacity_get_http_session by auto
qed

lemma reachable_within_capacity: "reachable p \<Longrightarrow> within_capacity (snd p)"
proof (induction rule: reachable.induct)
  case (reachable_start now ctl mc sp cp pw lt)
  show ?case using length_active_start_le [of now ctl sp cp pw mc lt]
    by (simp add: within_capacity_def start_def initialize_fields, simp add: TorManager_init_def)
next
  case (reachable_step p r q)
  then show ?case using within_capacity_step reachable_wf_pool by blast
qed

text \<open>
  C4. In every reachable pool state the active list holds at most \<open>max_circuits\<close> ids,
  \<open>max_circuits\<close> being a capacity (not negative). Without that reading the bound is
  \<open>max 0 max_circuits\<close>, as \<open>reachable_within_capacity\<close> states.
\<close>

theorem active_list_within_max_circuits:
  assumes "reachable (t, m)" and "0 \<le> max_circuits m"
  shows "int (length (active_circuits m)) \<le> max_circuits m"
  using reachable_within_capacity [OF assms(1)] assms(2) by (simp add: within_capacity_def)

lemma map_of_mark_dead:
  "map_of (circuits (mark_circuit_dead k m)) cid =
     map_option (\<lambda>c. if cid = k then c\<lparr>state := DEAD\<rparr> else c) (map_of (circuits m) cid)"
proof (cases "map_of (circuits m) k")
  case None
  then show ?thesis by (cases "cid = k") (simp_all add: mark_dead_None option.map_ident)
next
  case (Some c)
  then show ?thesis by (cases "cid = k") (simp_all add: mark_dead_Some option.map_ident)
qed

lemma map_of_fold_mark_dead:
  "map_of (circuits (fold mark_circuit_dead ks m)) cid =
     map_option (\<lambda>c. if cid \<in> set ks then c\<lparr>state := DEAD\<rparr> else c) (map_of (circuits m) cid)"
proof (induction ks arbitrary: m)
  case Nil
  then show ?case by (simp add: option.map_ident)
next
  case (Cons k ks)
  show ?case
    by (cases "map_of (circuits m) cid") (auto simp: Cons.IH map_of_mark_dead)
qed

lemma map_of_create_fresh:
  assumes "replies_fresh [r] (map fst (circuits m))" and "map_of (circuits m) cid = Some c"
  shows "map_of (circuits (snd (create_circuit now r m))) cid = Some c"
proof (cases r)
  case ControllerError
  with assms show ?thesis by (simp add: create_circuit_def)
next
  case (Built nid path)
  from assms(2) have "cid \<in> set (map fst (circuits m))"
    by (metis map_of_eq_None_iff option.distinct(1) set_map)
  with assms(1) Built have "nid \<noteq> cid" by auto
  with assms(2) Built show ?thesis by (simp add: create_circuit_Built update_conv')
qed

lemma map_of_initialize_fresh:
  assumes "replies_fresh (map ctl [0..<nat (min 3 (max_circuits m))]) (map fst (circuits m))"
    and "map_of (circuits m) cid = Some c"
  shows "map_of (circuits (initialize_circuits now ctl m)) cid = Some c"
  unfolding initialize_circuits_def
  using assms by (rule fold_create_inv) (rule map_of_create_fresh)

text \<open>
  C6. After \<open>rotate_all_circuits\<close> in a reachable pool state, when every creation
  succeeds and the control channel hands out unused ids: the session cache is empty (so
  every session cached before is gone), every circuit known before is registered as Dead,
  and the active count of \<open>get_stats\<close> is \<open>min 3 max_circuits\<close>.
\<close>

theorem rotate_all_postcondition:
  assumes "reachable (t, m)" and "0 \<le> max_circuits m"
    and "replies_fresh (map ctl [0..<nat (min 3 (max_circuits m))]) (map fst (circuits m))"
    and "\<forall>i < nat (min 3 (max_circuits m)). ctl i \<noteq> ControllerError"
    and "m' = rotate_all_circuits now ctl m"
  shows "session_cache m' = []
       \<and> (\<forall>cid c. map_of (circuits m) cid = Some c \<longrightarrow>
             (\<exists>c'. map_of (circuits m') cid = Some c' \<and> state c' = DEAD))
       \<and> active_count (get_stats now' m') = min 3 (max_circuits m)"
proof -
  let ?d = "(fold mark_circuit_dead (map fst (circuits m)) m)\<lparr>session_cache := []\<rparr>"
  from assms(1) have wf: "wf_pool m" using reachable_wf_pool by fastforce
  have m': "m' = initialize_circuits now ctl ?d" by (simp add: assms(5) rotate_all_circuits_def)
  have mx: "max_circuits ?d = max_circuits m" by (simp add: fold_mark_dead_fields)
  have keys: "map fst (circuits ?d) = map fst (circuits m)" by (simp add: keys_fold_mark_dead)
  have 1: "session_cache m' = []" by (simp add: m' initialize_fields)
  have 2: "\<exists>c'. map_of (circuits m') cid = Some c' \<and> state c' = DEAD"
    if l: "map_of (circuits m) cid = Some c" for cid c
  proof -
    from l have "cid \<in> set (map fst (circuits m))"
      by (metis map_of_eq_None_iff option.distinct(1) set_map)
    with l have "map_of (circuits ?d) cid = Some (c\<lparr>state := DEAD\<rparr>)"
      by (simp add: map_of_fold_mark_dead)
    moreover have "replies_fresh (map ctl [0..<nat (min 3 (max_circuits ?d))]) (map fst (circuits ?d))"
      using assms(3) by (simp only: mx keys)
    ultimately have "map_of (circuits m') cid = Some (c\<lparr>state := DEAD\<rparr>)"
      unfolding m' by (rule map_of_initialize_fresh [rotated])
    then show ?thesis by simp
  qed
  have "int (length (active_circuits m')) = int (length (active_circuits ?d)) + max 0 (min 3 (max_circuits ?d))"
    unfolding m' by (rule length_active_initialize_eq) (use assms(4) in \<open>simp only: mx\<close>)
  moreover have "active_circuits ?d = []" using active_mark_all_dead [OF wf] by simp
  ultimately have 3: "active_count (get_stats now' m') = min 3 (max_circuits m)"
    using assms(2) by (simp add: get_stats_def mx)
  from 1 2 3 show ?thesis by blast
qed

lemma get_http_session_pool1:
  "get_http_session None 1001 ControllerError 0 pool1 =
     (Inr session1,
      pool1\<lparr>circuits := [(''1'', circuit1_used)], session_cache := [(''1'', session1)]\<rparr>)"
  by (simp add: get_http_session_def get_circuit_pool1 bind_session_def Let_def circuit1_used_def
      session1_def new_circuit_def, simp add: pool1_eq Let_def)

lemma pool1s_eq:
  "pool1s = \<lparr>socks_port = 9050, control_port = 9051, control_password = None, max_circuits = 1,
      circuit_lifetime = 600, circuits = [(''1'', circuit1_used)],
      active_circuits = [''1''], session_cache = [(''1'', session1)]\<rparr>"
  by (simp add: pool1s_def get_http_session_pool1, simp add: pool1_eq)

lemma reachable_pool1s: "reachable (1001, pool1s)"
proof -
  have "step (1000, pool1) None (1001, pool1s)"
    by (rule step_session [where reply = ControllerError and copt = None and r = 0 and res = "Inr session1"])
       (simp_all add: pool1s_def get_http_session_pool1)
  with reachable_pool1 show ?thesis by (rule reachable_step)
qed

theorem active_list_within_max_circuits_witness:
  "reachable (1001, pool1s) \<and> 0 \<le> max_circuits pool1s
   \<and> int (length (active_circuits pool1s)) \<le> max_circuits pool1s"
  using active_list_within_max_circuits [OF reachable_pool1s] reachable_pool1s
  by (simp add: pool1s_eq)

theorem rotate_all_postcondition_witness:
  "reachable (1001, pool1s) \<and> session_cache pool1s = [(''1'', session1)]
   \<and> session_cache (rotate_all_circuits 1002 (\<lambda>i. Built ''2'' []) pool1s) = []
   \<and> (\<exists>c'. map_of (circuits (rotate_all_circuits 1002 (\<lambda>i. Built ''2'' []) pool1s)) ''1'' = Some c'
         \<and> state c' = DEAD)
   \<and> active_count (get_stats 1003 (rotate_all_circuits 1002 (\<lambda>i. Built ''2'' []) pool1s)) = 1"
proof -
  have "session_cache (rotate_all_circuits 1002 (\<lambda>i. Built ''2'' []) pool1s) = []
       \<and> (\<forall>cid c. map_of (circuits pool1s) cid = Some c \<longrightarrow>
             (\<exists>c'. map_of (circuits (rotate_all_circuits 1002 (\<lambda>i. Built ''2'' []) pool1s)) cid = Some c' \<and> state c' = DEAD))
       \<and> active_count (get_stats 1003 (rotate_all_circuits 1002 (\<lambda>i. Built ''2'' []) pool1s)) = min 3 (max_circuits pool1s)"
    by (rule rotate_all_postcondition [OF reachable_pool1s]) (simp_all add: pool1s_eq)
  moreover have "map_of (circuits pool1s) ''1'' = Some circuit1_used" by (simp add: pool1s_eq)
  ultimately show ?thesis using reachable_pool1s by (auto simp: pool1s_eq)
qed

section \<open>History of circuits: clock, states and recycling\<close>

lemma circuit_ok_mono: "circuit_ok t c \<Longrightarrow> t \<le> t' \<Longrightarrow> circuit_ok t' c"
  by (auto simp: circuit_ok_def)

lemma hist_inv_mono: "hist_inv t m \<Longrightarrow> t \<le> t' \<Longrightarrow> hist_inv t' m"
  by (auto simp: hist_inv_def intro: circuit_ok_mono)

lemma circuit_ok_expire: "circuit_ok t c \<Longrightarrow> circuit_ok t (expire now lt c)"
  by (auto simp: circuit_ok_def expire_def)

lemma created_at_expire: "created_at (expire now lt c) = created_at c"
  by (simp add: expire_def)

lemma created_le_cleanup:
  "created_le (circuits (cleanup_circuits now m)) = created_le (circuits m)"
  by (intro ext) (auto simp: created_le_def map_of_cleanup created_at_expire)

lemma hist_inv_cleanup:
  assumes "hist_inv t m"
  shows "hist_inv t (cleanup_circuits now m)"
proof -
  from assms have wf: "wf_pool m" by (simp add: hist_inv_def)
  then have d: "distinct (active_circuits m)" by (simp add: wf_pool_def)
  have "sorted_wrt (created_le (circuits m)) (active_circuits (cleanup_circuits now m))"
    using assms by (simp add: active_cleanup_filter [OF d] sorted_wrt_filter hist_inv_def)
  moreover have "circuit_ok t c" if "map_of (circuits (cleanup_circuits now m)) cid = Some c" for cid c
    using that assms by (auto simp: map_of_cleanup hist_inv_def intro: circuit_ok_expire)
  ultimately show ?thesis
    using assms wf_pool_cleanup [OF wf] by (simp add: hist_inv_def created_le_cleanup)
qed

lemma circuit_ok_new: "0 < now \<Longrightarrow> circuit_ok now (new_circuit now cid path)"
  by (simp add: circuit_ok_def new_circuit_def)

lemma hist_inv_create:
  assumes "hist_inv now m" and "replies_fresh [r] (map fst (circuits m))"
  shows "hist_inv now (snd (create_circuit now r m))"
proof (cases r)
  case ControllerError
  with assms show ?thesis by (simp add: create_circuit_def)
next
  case (Built cid path)
  let ?m2 = "snd (create_circuit now r m)"
  from assms(1) have wf: "wf_pool m" and pos: "0 < now" by (simp_all add: hist_inv_def)
  from Built assms(2) have fresh: "cid \<notin> set (map fst (circuits m))" by simp
  then have none: "map_of (circuits m) cid = None" by (simp add: map_of_eq_None_iff)
  from fresh wf have na: "cid \<notin> set (active_circuits m)" by (auto simp: wf_pool_def)
  have a: "active_circuits ?m2 = active_circuits m @ [cid]"
    by (simp add: Built create_circuit_Built)
  have l: "map_of (circuits ?m2) = (map_of (circuits m))(cid \<mapsto> new_circuit now cid path)"
    by (simp add: Built create_circuit_Built update_conv')
  have ok: "circuit_ok now c" if "map_of (circuits ?m2) x = Some c" for x c
    using that assms(1) pos by (auto simp: l hist_inv_def circuit_ok_new split: if_splits)
  have old: "created_le (circuits ?m2) x y"
    if "x \<in> set (active_circuits m)" "y \<in> set (active_circuits m)" "created_le (circuits m) x y" for x y
    using that na by (auto simp: created_le_def l)
  from assms(1) have "sorted_wrt (created_le (circuits m)) (active_circuits m)"
    by (simp add: hist_inv_def)
  then have s1: "sorted_wrt (created_le (circuits ?m2)) (active_circuits m)"
    by (rule sorted_wrt_mono_rel [rotated]) (rule old)
  have s2: "created_le (circuits ?m2) x cid" if "x \<in> set (active_circuits m)" for x
  proof -
    from that na have "x \<noteq> cid" by auto
    then show ?thesis using assms(1)
      by (auto simp: created_le_def l hist_inv_def circuit_ok_def new_circuit_def)
  qed
  have "sorted_wrt (created_le (circuits ?m2)) (active_circuits ?m2)"
    unfolding a by (simp add: sorted_wrt_append s1 s2)
  with ok pos wf_pool_create [OF wf assms(2)] show ?thesis by (simp add: hist_inv_def)
qed

lemma hist_inv_touch:
  assumes "hist_inv now m" and "touched now m cid c c'"
  shows "hist_inv now (touch cid c' m)"
proof -
  from assms(1) have wf: "wf_pool m" and pos: "0 < now" by (simp_all add: hist_inv_def)
  from assms(2) have l: "map_of (circuits m) cid = Some c" by (simp add: touched_def)
  with assms(1) have okc: "circuit_ok now c" by (simp add: hist_inv_def)
  have l': "map_of (circuits (touch cid c' m)) = (map_of (circuits m))(cid \<mapsto> c')"
    by (simp add: touch_def update_conv')
  from assms(2) have cr: "created_at c' = created_at c" by (auto simp: touched_def)
  from assms(2) okc pos have okc': "circuit_ok now c'"
    by (auto simp: touched_def circuit_ok_def is_healthy_def split: if_splits)
  have ok: "circuit_ok now d" if "map_of (circuits (touch cid c' m)) x = Some d" for x d
    using that assms(1) okc' by (auto simp: l' hist_inv_def split: if_splits)
  have "created_le (circuits (touch cid c' m)) = created_le (circuits m)"
    using l cr by (intro ext) (auto simp: created_le_def l')
  with ok pos wf_pool_touch [OF wf assms(2)] assms(1) show ?thesis
    by (simp add: hist_inv_def touch_fields)
qed

lemma hist_inv_get_circuit:
  assumes "hist_inv t m" and "t \<le> now" and "replies_fresh [reply] (map fst (circuits m))"
    and "get_circuit rf now reply m = (res, m')"
  shows "hist_inv now m'"
proof (rule get_circuit_inv [OF assms(4)])
  show "hist_inv now (cleanup_circuits now m)"
    using assms(1,2) by (intro hist_inv_cleanup) (rule hist_inv_mono)
next
  fix m1 :: TorManager assume "hist_inv now m1" "m1 = cleanup_circuits now m"
  then show "hist_inv now (snd (create_circuit now reply m1))"
    using assms(3) by (simp add: hist_inv_create keys_cleanup)
next
  fix mc :: TorManager and cid c c' assume "hist_inv now mc" "touched now mc cid c c'"
  then show "hist_inv now (touch cid c' mc)" by (rule hist_inv_touch)
qed

lemma hist_inv_mark_dead:
  assumes "hist_inv t m"
  shows "hist_inv t (mark_circuit_dead cid m)"
proof (cases "map_of (circuits m) cid")
  case None
  with assms show ?thesis by (simp add: mark_dead_None)
next
  case (Some c)
  from assms have wf: "wf_pool m" by (simp add: hist_inv_def)
  then have d: "distinct (active_circuits m)" by (simp add: wf_pool_def)
  have a: "active_circuits (mark_circuit_dead cid m) = filter (\<lambda>x. x \<noteq> cid) (active_circuits m)"
    using d by (simp add: mark_dead_Some [OF Some] distinct_remove1_removeAll removeAll_filter_not_eq) metis
  note l = mark_dead_Some(3) [OF Some]
  from assms Some have "circuit_ok t c" by (simp add: hist_inv_def)
  then have okd: "circuit_ok t (c\<lparr>state := DEAD\<rparr>)" by (simp add: circuit_ok_def)
  have ok: "circuit_ok t d" if "map_of (circuits (mark_circuit_dead cid m)) x = Some d" for x d
    using that assms okd by (auto simp: l hist_inv_def split: if_splits)
  have "created_le (circuits (mark_circuit_dead cid m)) = created_le (circuits m)"
    using Some by (intro ext) (auto simp: created_le_def l)
  with ok wf_pool_mark_dead [OF wf] assms show ?thesis
    by (simp add: hist_inv_def a sorted_wrt_filter)
qed

lemma hist_inv_fold_mark_dead: "hist_inv t m \<Longrightarrow> hist_inv t (fold mark_circuit_dead ks m)"
  by (induction ks arbitrary: m) (simp_all add: hist_inv_mark_dead)

lemma hist_inv_session_cache: "hist_inv t (m\<lparr>session_cache := sc\<rparr>) = hist_inv t m"
  by (simp add: hist_inv_def wf_pool_session_cache)

lemma hist_inv_initialize:
  assumes "hist_inv now m"
    and "replies_fresh (map ctl [0..<nat (min 3 (max_circuits m))]) (map fst (circuits m))"
  shows "hist_inv now (initialize_circuits now ctl m)"
  unfolding initialize_circuits_def
  using assms(2,1) hist_inv_create by (rule fold_create_inv)

lemma hist_inv_rotate:
  assumes "hist_inv t m" and "t \<le> now"
    and "replies_fresh (map ctl [0..<nat (min 3 (max_circuits m))]) (map fst (circuits m))"
  shows "hist_inv now (rotate_all_circuits now ctl m)"
  unfolding rotate_all_circuits_def
  by (rule hist_inv_initialize)
     (simp_all add: hist_inv_session_cache hist_inv_fold_mark_dead hist_inv_mono [OF assms(1,2)]
        assms(3) keys_fold_mark_dead fold_mark_dead_fields)

lemma hist_inv_bind_session: "bind_session c r m = (res, m') \<Longrightarrow> hist_inv t m \<Longrightarrow> hist_inv t m'"
  by (auto simp: bind_session_def Let_def hist_inv_session_cache split: option.splits)

lemma hist_inv_get_http_session:
  assumes "hist_inv t m" and "t \<le> now" and "replies_fresh [reply] (map fst (circuits m))"
    and "get_http_session copt now reply r m = (res, m')"
  shows "hist_inv now m'"
proof (cases copt)
  case (Some c)
  with assms(4) have "bind_session c r m = (res, m')" by (simp add: get_http_session_def)
  then show ?thesis using hist_inv_mono [OF assms(1,2)] by (rule hist_inv_bind_session)
next
  case None
  obtain gr m1 where g: "get_circuit False now reply m = (gr, m1)" by (cases "get_circuit False now reply m")
  from hist_inv_get_circuit [OF assms(1-3) g] have "hist_inv now m1" .
  with assms(4) None g show ?thesis
    by (auto simp: get_http_session_def split: sum.splits option.splits dest: hist_inv_bind_session)
qed

lemma hist_inv_step: "step p r q \<Longrightarrow> hist_inv (fst p) (snd p) \<Longrightarrow> hist_inv (fst q) (snd q)"
proof (induction rule: step.induct)
  case (step_get_circuit t now reply m rf res m')
  then show ?case using hist_inv_get_circuit by auto
next
  case (step_cleanup t now m)
  then show ?case using hist_inv_cleanup hist_inv_mono by auto
next
  case (step_mark_dead t m cid)
  then show ?case by (simp add: hist_inv_mark_dead)
next
  case (step_rotate t now ctl m)
  then show ?case using hist_inv_rotate by auto
next
  case (step_session t now reply m copt r res m')
  then show ?case using hist_inv_get_http_session by auto
qed

lemma hist_inv_init: "0 < now \<Longrightarrow> hist_inv now (TorManager_init sp cp pw mc lt)"
  by (simp add: hist_inv_def wf_pool_init) (simp add: TorManager_init_def)

lemma reachable_hist_inv: "reachable p \<Longrightarrow> hist_inv (fst p) (snd p)"
proof (induction rule: reachable.induct)
  case (reachable_start now ctl mc sp cp pw lt)
  have "hist_inv now (initialize_circuits now ctl (TorManager_init sp cp pw mc lt))"
    by (rule hist_inv_initialize) (simp_all add: hist_inv_init reachable_start, simp_all add: TorManager_init_def reachable_start)
  then show ?case by (simp add: start_def)
next
  case (reachable_step p r q)
  then show ?case using hist_inv_step by blast
qed

lemma grows_refl: "grows m m"
  by (auto simp: grows_def)

lemma grows_trans: "grows m1 m2 \<Longrightarrow> grows m2 m3 \<Longrightarrow> grows m1 m3"
  unfolding grows_def by (meson order_trans)

lemma grows_same_circuits: "circuits m' = circuits m \<Longrightarrow> grows m m'"
  by (auto simp: grows_def)

lemma rank_le_DEAD: "rank s \<le> 3"
  by (cases s) simp_all

lemma rank_DEAD_le: "rank DEAD \<le> rank s \<Longrightarrow> s = DEAD"
  by (cases s) simp_all

lemma rank_expire: "rank (state c) \<le> rank (state (expire now lt c))"
  by (cases "state c") (simp_all add: expire_def)

lemma grows_cleanup: "grows m (cleanup_circuits now m)"
  by (auto simp: grows_def map_of_cleanup rank_expire)

lemma grows_create:
  "replies_fresh [r] (map fst (circuits m)) \<Longrightarrow> grows m (snd (create_circuit now r m))"
  by (auto simp: grows_def map_of_create_fresh)

lemma grows_mark_dead: "grows m (mark_circuit_dead cid m)"
  by (auto simp: grows_def map_of_mark_dead rank_le_DEAD)

lemma grows_fold_mark_dead: "grows m (fold mark_circuit_dead ks m)"
  by (auto simp: grows_def map_of_fold_mark_dead rank_le_DEAD)

lemma grows_touch:
  assumes "hist_inv now m" and "touched now m cid c c'"
  shows "grows m (touch cid c' m)"
proof -
  from assms(2) have l: "map_of (circuits m) cid = Some c" by (simp add: touched_def)
  with assms(1) have ok: "circuit_ok now c" by (simp add: hist_inv_def)
  have "rank (state c) \<le> rank (state c')"
  proof (cases "state c' = state c")
    case True
    then show ?thesis by simp
  next
    case False
    with assms(2) have h: "is_healthy now c" and a: "state c' = ACTIVE" by (auto simp: touched_def)
    from h ok have "state c \<noteq> DEAD" "state c \<noteq> DEGRADED"
      by (auto simp: is_healthy_iff circuit_ok_def)
    with a show ?thesis by (cases "state c") simp_all
  qed
  with l show ?thesis by (auto simp: grows_def touch_def update_conv')
qed

lemma grows_get_circuit:
  assumes "hist_inv t m" and "t \<le> now" and "replies_fresh [reply] (map fst (circuits m))"
    and "get_circuit rf now reply m = (res, m')"
  shows "grows m m'"
proof -
  have "hist_inv now m' \<and> grows m m'"
  proof (rule get_circuit_inv [OF assms(4), where P = "\<lambda>x. hist_inv now x \<and> grows m x"])
    show "hist_inv now (cleanup_circuits now m) \<and> grows m (cleanup_circuits now m)"
      using assms(1,2) by (simp add: hist_inv_cleanup hist_inv_mono grows_cleanup)
  next
    fix m1 :: TorManager assume "hist_inv now m1 \<and> grows m m1" "m1 = cleanup_circuits now m"
    then show "hist_inv now (snd (create_circuit now reply m1)) \<and> grows m (snd (create_circuit now reply m1))"
      using assms(3) grows_trans [OF _ grows_create [of reply m1 now]]
      by (simp add: hist_inv_create keys_cleanup)
  next
    fix mc :: TorManager and cid c c' assume "hist_inv now mc \<and> grows m mc" "touched now mc cid c c'"
    then show "hist_inv now (touch cid c' mc) \<and> grows m (touch cid c' mc)"
      using grows_trans [OF _ grows_touch] hist_inv_touch by blast
  qed
  then show ?thesis ..
qed

lemma grows_initialize:
  assumes "replies_fresh (map ctl [0..<nat (min 3 (max_circuits m))]) (map fst (circuits m))"
  shows "grows m (initialize_circuits now ctl m)"
  unfolding initialize_circuits_def
  using assms grows_refl
proof (rule fold_create_inv)
  fix r and m1 :: TorManager
  assume "grows m m1" "replies_fresh [r] (map fst (circuits m1))"
  then show "grows m (snd (create_circuit now r m1))"
    using grows_trans grows_create by blast
qed

lemma grows_rotate:
  assumes "replies_fresh (map ctl [0..<nat (min 3 (max_circuits m))]) (map fst (circuits m))"
  shows "grows m (rotate_all_circuits now ctl m)"
proof -
  let ?d = "(fold mark_circuit_dead (map fst (circuits m)) m)\<lparr>session_cache := []\<rparr>"
  have "grows m (fold mark_circuit_dead (map fst (circuits m)) m)" by (rule grows_fold_mark_dead)
  moreover have "grows (fold mark_circuit_dead (map fst (circuits m)) m) ?d"
    by (rule grows_same_circuits) simp
  moreover have "grows ?d (initialize_circuits now ctl ?d)"
    by (rule grows_initialize) (simp add: keys_fold_mark_dead fold_mark_dead_fields assms)
  ultimately show ?thesis unfolding rotate_all_circuits_def using grows_trans by blast
qed

lemma grows_get_http_session:
  assumes "hist_inv t m" and "t \<le> now" and "replies_fresh [reply] (map fst (circuits m))"
    and "get_http_session copt now reply r m = (res, m')"
  shows "grows m m'"
proof (cases copt)
  case (Some c)
  with assms(4) have "bind_session c r m = (res, m')" by (simp add: get_http_session_def)
  from keys_bind_session [OF this] show ?thesis by (simp add: grows_same_circuits)
next
  case None
  obtain gr m1 where g: "get_circuit False now reply m = (gr, m1)" by (cases "get_circuit False now reply m")
  from grows_get_circuit [OF assms(1-3) g] have 1: "grows m m1" .
  have "grows m1 m'"
    using assms(4) None g
    by (auto simp: get_http_session_def split: sum.splits option.splits
        dest!: keys_bind_session intro: grows_same_circuits grows_refl)
  with 1 show ?thesis by (rule grows_trans)
qed

lemma grows_step: "step p r q \<Longrightarrow> hist_inv (fst p) (snd p) \<Longrightarrow> grows (snd p) (snd q)"
proof (induction rule: step.induct)
  case (step_get_circuit t now reply m rf res m')
  then show ?case using grows_get_circuit by auto
next
  case (step_cleanup t now m)
  then show ?case by (simp add: grows_cleanup)
next
  case (step_mark_dead t m cid)
  then show ?case by (simp add: grows_mark_dead)
next
  case (step_rotate t now ctl m)
  then show ?case by (simp add: grows_rotate)
next
  case (step_session t now reply m copt r res m')
  then show ?case using grows_get_http_session by auto
qed

lemma get_circuit_returned:
  assumes "wf_pool m" and "replies_fresh [reply] (map fst (circuits m))"
    and "get_circuit rf now reply m = (Inr (Some d), m')"
  shows "state d \<noteq> DEAD \<and> map_of (circuits m') (circuit_id d) = Some d"
proof -
  from get_circuit_result [OF assms(3)] obtain mc cid c0 where
    mc: "mc = cleanup_circuits now m \<or> mc = snd (create_circuit now reply (cleanup_circuits now m))"
    and t: "touched now mc cid c0 d" and m': "m' = touch cid d mc" by auto
  have "wf_pool mc" using mc assms(1,2)
    by (auto simp: wf_pool_cleanup intro!: wf_pool_create simp: keys_cleanup)
  from \<open>wf_pool mc\<close> t have "state d \<noteq> DEAD" by (rule touched_not_dead)
  moreover from \<open>wf_pool mc\<close> t have "circuit_id d = cid" by (auto simp: wf_pool_def touched_def)
  ultimately show ?thesis by (simp add: m' touch_def update_conv')
qed

lemma step_returned:
  assumes "step p (Some d) q" and "wf_pool (snd p)"
  shows "state d \<noteq> DEAD \<and> map_of (circuits (snd q)) (circuit_id d) = Some d"
  using assms
proof (cases rule: step.cases)
  case (step_get_circuit t now reply m rf res m')
  from step_get_circuit have "res = Inr (Some d)" by (cases res) auto
  with step_get_circuit assms(2) show ?thesis using get_circuit_returned by auto
qed

lemma run_monotone:
  assumes "run p rs q" and "hist_inv (fst p) (snd p)" and "map_of (circuits (snd p)) i = Some c"
  shows "\<exists>c'. map_of (circuits (snd q)) i = Some c' \<and> rank (state c) \<le> rank (state c') \<and>
           (state c = DEAD \<longrightarrow> state c' = DEAD \<and> (\<forall>d. Some d \<in> set rs \<longrightarrow> circuit_id d \<noteq> i))"
  using assms
proof (induction arbitrary: c rule: run.induct)
  case (run_nil p)
  then show ?case by auto
next
  case (run_step p r q rs q')
  from grows_step [OF run_step.hyps(1) run_step.prems(1)] run_step.prems(2)
  obtain c1 where c1: "map_of (circuits (snd q)) i = Some c1" "rank (state c) \<le> rank (state c1)"
    by (auto simp: grows_def)
  from hist_inv_step [OF run_step.hyps(1) run_step.prems(1)] have hq: "hist_inv (fst q) (snd q)" .
  from run_step.IH [OF hq c1(1)] obtain c' where c':
    "map_of (circuits (snd q')) i = Some c'" "rank (state c1) \<le> rank (state c')"
    "state c1 = DEAD \<longrightarrow> state c' = DEAD \<and> (\<forall>d. Some d \<in> set rs \<longrightarrow> circuit_id d \<noteq> i)"
    by blast
  have "state c' = DEAD \<and> (\<forall>d. Some d \<in> set (r # rs) \<longrightarrow> circuit_id d \<noteq> i)" if dead: "state c = DEAD"
  proof -
    from dead c1(2) have d1: "state c1 = DEAD" by (simp add: rank_DEAD_le)
    have "circuit_id d \<noteq> i" if "r = Some d" for d
    proof
      assume "circuit_id d = i"
      moreover from run_step.prems(1) have "wf_pool (snd p)" by (simp add: hist_inv_def)
      ultimately have "state d \<noteq> DEAD" "map_of (circuits (snd q)) i = Some d"
        using step_returned [of p d q] run_step.hyps(1) that by auto
      with c1(1) d1 show False by simp
    qed
    with d1 c'(3) show ?thesis by auto
  qed
  with c'(1,2) c1(2) show ?case by (meson order_trans)
qed

text \<open>
  C3. From a reachable pool state, along every sequence of operations, a registered
  circuit stays registered and its state never moves backwards in the order Fresh, Active,
  Degraded, Dead. A circuit that is Dead stays Dead, and no \<open>get_circuit\<close> of the
  sequence returns a circuit with its id.
\<close>

theorem state_moves_forward_only:
  assumes "reachable p" and "run p rs q" and "map_of (circuits (snd p)) i = Some c"
  shows "\<exists>c'. map_of (circuits (snd q)) i = Some c' \<and> rank (state c) \<le> rank (state c') \<and>
           (state c = DEAD \<longrightarrow> state c' = DEAD \<and> (\<forall>d. Some d \<in> set rs \<longrightarrow> circuit_id d \<noteq> i))"
  using assms(2) reachable_hist_inv [OF assms(1)] assms(3) by (rule run_monotone)

lemma last_used_key_Some:
  "map_of reg cid = Some c \<Longrightarrow> last_used_key reg cid = Inr (lu_key reg cid)"
  by (simp add: last_used_key_def lu_key_def split: option.splits)

lemma py_min_split:
  assumes "\<forall>y \<in> set rest. map_of reg y \<noteq> None"
  shows "\<exists>x. py_min reg best (lu_key reg best) rest = Inr x \<and>
           (x = best \<and> (\<forall>y \<in> set rest. lu_key reg best \<le> lu_key reg y) \<or>
            (\<exists>pre post. rest = pre @ x # post \<and> lu_key reg x < lu_key reg best \<and>
               (\<forall>y \<in> set pre. lu_key reg x < lu_key reg y) \<and>
               (\<forall>y \<in> set post. lu_key reg x \<le> lu_key reg y)))"
  using assms
proof (induction rest arbitrary: best)
  case Nil
  then show ?case by simp
next
  case (Cons y ys)
  then obtain c where c: "map_of reg y = Some c" by auto
  note k = last_used_key_Some [OF c]
  from Cons.prems have ys: "\<forall>z \<in> set ys. map_of reg z \<noteq> None" by simp
  show ?case
  proof (cases "lu_key reg y < lu_key reg best")
    case True
    from Cons.IH [OF ys, of y] obtain x where x: "py_min reg y (lu_key reg y) ys = Inr x"
      and d: "x = y \<and> (\<forall>z \<in> set ys. lu_key reg y \<le> lu_key reg z) \<or>
            (\<exists>pre post. ys = pre @ x # post \<and> lu_key reg x < lu_key reg y \<and>
               (\<forall>z \<in> set pre. lu_key reg x < lu_key reg z) \<and>
               (\<forall>z \<in> set post. lu_key reg x \<le> lu_key reg z))" by blast
    from d have "\<exists>pre post. y # ys = pre @ x # post \<and> lu_key reg x < lu_key reg best \<and>
               (\<forall>z \<in> set pre. lu_key reg x < lu_key reg z) \<and>
               (\<forall>z \<in> set post. lu_key reg x \<le> lu_key reg z)"
    proof
      assume "x = y \<and> (\<forall>z \<in> set ys. lu_key reg y \<le> lu_key reg z)"
      with True have "y # ys = [] @ x # ys \<and> lu_key reg x < lu_key reg best \<and>
               (\<forall>z \<in> set []. lu_key reg x < lu_key reg z) \<and>
               (\<forall>z \<in> set ys. lu_key reg x \<le> lu_key reg z)" by simp
      then show ?thesis by blast
    next
      assume "\<exists>pre post. ys = pre @ x # post \<and> lu_key reg x < lu_key reg y \<and>
               (\<forall>z \<in> set pre. lu_key reg x < lu_key reg z) \<and>
               (\<forall>z \<in> set post. lu_key reg x \<le> lu_key reg z)"
      then obtain pre post where p: "ys = pre @ x # post" "lu_key reg x < lu_key reg y"
        "\<forall>z \<in> set pre. lu_key reg x < lu_key reg z" "\<forall>z \<in> set post. lu_key reg x \<le> lu_key reg z"
        by blast
      with True have "y # ys = (y # pre) @ x # post \<and> lu_key reg x < lu_key reg best \<and>
               (\<forall>z \<in> set (y # pre). lu_key reg x < lu_key reg z) \<and>
               (\<forall>z \<in> set post. lu_key reg x \<le> lu_key reg z)" by simp
      then show ?thesis by blast
    qed
    with x True k show ?thesis by simp
  next
    case False
    from Cons.IH [OF ys, of best] obtain x where x: "py_min reg best (lu_key reg best) ys = Inr x"
      and d: "x = best \<and> (\<forall>z \<in> set ys. lu_key reg best \<le> lu_key reg z) \<or>
            (\<exists>pre post. ys = pre @ x # post \<and> lu_key reg x < lu_key reg best \<and>
               (\<forall>z \<in> set pre. lu_key reg x < lu_key reg z) \<and>
               (\<forall>z \<in> set post. lu_key reg x \<le> lu_key reg z))" by blast
    from d have "x = best \<and> (\<forall>z \<in> set (y # ys). lu_key reg best \<le> lu_key reg z) \<or>
            (\<exists>pre post. y # ys = pre @ x # post \<and> lu_key reg x < lu_key reg best \<and>
               (\<forall>z \<in> set pre. lu_key reg x < lu_key reg z) \<and>
               (\<forall>z \<in> set post. lu_key reg x \<le> lu_key reg z))"
    proof
      assume "x = best \<and> (\<forall>z \<in> set ys. lu_key reg best \<le> lu_key reg z)"
      with False show ?thesis by simp
    next
      assume "\<exists>pre post. ys = pre @ x # post \<and> lu_key reg x < lu_key reg best \<and>
               (\<forall>z \<in> set pre. lu_key reg x < lu_key reg z) \<and>
               (\<forall>z \<in> set post. lu_key reg x \<le> lu_key reg z)"
      then obtain pre post where p: "ys = pre @ x # post" "lu_key reg x < lu_key reg best"
        "\<forall>z \<in> set pre. lu_key reg x < lu_key reg z" "\<forall>z \<in> set post. lu_key reg x \<le> lu_key reg z"
        by blast
      with False have "y # ys = (y # pre) @ x # post \<and> lu_key reg x < lu_key reg best \<and>
               (\<forall>z \<in> set (y # pre). lu_key reg x < lu_key reg z) \<and>
               (\<forall>z \<in> set post. lu_key reg x \<le> lu_key reg z)" by simp
      then show ?thesis by blast
    qed
    with x False k show ?thesis by simp
  qed
qed

lemma oldest_active_split:
  assumes "\<forall>y \<in> set (active_circuits m). map_of (circuits m) y \<noteq> None"
    and "active_circuits m \<noteq> []"
  shows "\<exists>x pre post. oldest_active m = Inr x \<and> active_circuits m = pre @ x # post \<and>
           (\<forall>y \<in> set pre. lu_key (circuits m) x < lu_key (circuits m) y) \<and>
           (\<forall>y \<in> set post. lu_key (circuits m) x \<le> lu_key (circuits m) y)"
proof -
  from assms(2) obtain b rest where a: "active_circuits m = b # rest" by (cases "active_circuits m") auto
  with assms(1) obtain c where c: "map_of (circuits m) b = Some c" by auto
  from a assms(1) have r: "\<forall>y \<in> set rest. map_of (circuits m) y \<noteq> None" by simp
  from py_min_split [OF r, of b] obtain x where x: "py_min (circuits m) b (lu_key (circuits m) b) rest = Inr x"
    and d: "x = b \<and> (\<forall>y \<in> set rest. lu_key (circuits m) b \<le> lu_key (circuits m) y) \<or>
            (\<exists>pre post. rest = pre @ x # post \<and> lu_key (circuits m) x < lu_key (circuits m) b \<and>
               (\<forall>y \<in> set pre. lu_key (circuits m) x < lu_key (circuits m) y) \<and>
               (\<forall>y \<in> set post. lu_key (circuits m) x \<le> lu_key (circuits m) y))" by blast
  have o: "oldest_active m = Inr x"
    by (simp add: oldest_active_def a last_used_key_Some [OF c] x)
  from d show ?thesis
  proof
    assume "x = b \<and> (\<forall>y \<in> set rest. lu_key (circuits m) b \<le> lu_key (circuits m) y)"
    with a have "active_circuits m = [] @ x # rest \<and>
           (\<forall>y \<in> set []. lu_key (circuits m) x < lu_key (circuits m) y) \<and>
           (\<forall>y \<in> set rest. lu_key (circuits m) x \<le> lu_key (circuits m) y)" by simp
    with o show ?thesis by blast
  next
    assume "\<exists>pre post. rest = pre @ x # post \<and> lu_key (circuits m) x < lu_key (circuits m) b \<and>
               (\<forall>y \<in> set pre. lu_key (circuits m) x < lu_key (circuits m) y) \<and>
               (\<forall>y \<in> set post. lu_key (circuits m) x \<le> lu_key (circuits m) y)"
    then obtain pre post where "rest = pre @ x # post" "lu_key (circuits m) x < lu_key (circuits m) b"
        "\<forall>y \<in> set pre. lu_key (circuits m) x < lu_key (circuits m) y"
        "\<forall>y \<in> set post. lu_key (circuits m) x \<le> lu_key (circuits m) y" by blast
    with a have "active_circuits m = (b # pre) @ x # post \<and>
           (\<forall>y \<in> set (b # pre). lu_key (circuits m) x < lu_key (circuits m) y) \<and>
           (\<forall>y \<in> set post. lu_key (circuits m) x \<le> lu_key (circuits m) y)" by simp
    with o show ?thesis by blast
  qed
qed

lemma get_circuit_recycles:
  assumes "find_healthy rf now (circuits (cleanup_circuits now m)) (active_circuits (cleanup_circuits now m)) = Inr None"
    and "\<not> int (length (active_circuits (cleanup_circuits now m))) < max_circuits (cleanup_circuits now m)"
  shows "get_circuit rf now reply m = recycle now (cleanup_circuits now m)"
  using assms by (simp add: get_circuit_def Let_def)

text \<open>
  C9. In a reachable pool state, when the scan after cleanup finds no healthy circuit and
  the active list is not below \<open>max_circuits\<close> (and not empty), \<open>get_circuit\<close> returns an
  active circuit whose use time is not more recent than that of any active circuit, an
  absent use time counting as oldest; among the active circuits with the same use time it
  has the earliest creation time. Its request count is incremented and its use time set
  to the clock reading, in the result and in the registry.
\<close>

theorem recycle_takes_least_recently_used:
  assumes "reachable (t, m)"
    and "m1 = cleanup_circuits now m"
    and "find_healthy rf now (circuits m1) (active_circuits m1) = Inr None"
    and "\<not> int (length (active_circuits m1)) < max_circuits m1"
    and "active_circuits m1 \<noteq> []"
  shows "\<exists>cid c. cid \<in> set (active_circuits m1) \<and> map_of (circuits m1) cid = Some c \<and>
           (\<forall>x d. x \<in> set (active_circuits m1) \<longrightarrow> map_of (circuits m1) x = Some d \<longrightarrow>
              not_more_recent (last_used c) (last_used d) \<and>
              (last_used d = last_used c \<longrightarrow> created_at c \<le> created_at d)) \<and>
           get_circuit rf now reply m =
             (Inr (Some (c\<lparr>request_count := request_count c + 1, last_used := Some now\<rparr>)),
              m1\<lparr>circuits := AList.update cid
                    (c\<lparr>request_count := request_count c + 1, last_used := Some now\<rparr>) (circuits m1)\<rparr>)"
proof -
  from reachable_hist_inv [OF assms(1)] have "hist_inv t m" by simp
  then have h1: "hist_inv t m1" unfolding assms(2) by (rule hist_inv_cleanup)
  then have wf1: "wf_pool m1" by (simp add: hist_inv_def)
  have dom: "\<forall>y \<in> set (active_circuits m1). map_of (circuits m1) y \<noteq> None"
    using wf1 by (auto simp: wf_pool_def map_of_eq_None_iff)
  from oldest_active_split [OF dom assms(5)] obtain cid pre post where
    o: "oldest_active m1 = Inr cid" and a: "active_circuits m1 = pre @ cid # post"
    and pre: "\<forall>y \<in> set pre. lu_key (circuits m1) cid < lu_key (circuits m1) y"
    and post: "\<forall>y \<in> set post. lu_key (circuits m1) cid \<le> lu_key (circuits m1) y"
    by blast
  from a have mem: "cid \<in> set (active_circuits m1)" by simp
  with dom obtain c where c: "map_of (circuits m1) cid = Some c" by auto
  let ?c' = "c\<lparr>request_count := request_count c + 1, last_used := Some now\<rparr>"
  have "recycle now m1 = (Inr (Some ?c'), m1\<lparr>circuits := AList.update cid ?c' (circuits m1)\<rparr>)"
    using assms(5) o c by (simp add: recycle_def Let_def)
  then have g: "get_circuit rf now reply m = (Inr (Some ?c'), m1\<lparr>circuits := AList.update cid ?c' (circuits m1)\<rparr>)"
    using get_circuit_recycles [of rf now m reply] assms(2-4) by simp
  have sel: "not_more_recent (last_used c) (last_used d) \<and>
              (last_used d = last_used c \<longrightarrow> created_at c \<le> created_at d)"
    if x: "x \<in> set (active_circuits m1)" and d: "map_of (circuits m1) x = Some d" for x d
  proof -
    from h1 c d have okc: "circuit_ok t c" and okd: "circuit_ok t d" by (auto simp: hist_inv_def)
    have kc: "lu_key (circuits m1) cid = (case last_used c of None \<Rightarrow> 0 | Some u \<Rightarrow> u)"
      by (simp add: lu_key_def c)
    have kd: "lu_key (circuits m1) x = (case last_used d of None \<Rightarrow> 0 | Some u \<Rightarrow> u)"
      by (simp add: lu_key_def d)
    from x a have cases: "x \<in> set pre \<or> x = cid \<or> x \<in> set post" by auto
    with pre post have le: "lu_key (circuits m1) cid \<le> lu_key (circuits m1) x" by auto
    have 1: "not_more_recent (last_used c) (last_used d)"
    proof (cases "last_used c")
      case None
      then show ?thesis by simp
    next
      case (Some u)
      with okc have "0 < u" by (simp add: circuit_ok_def)
      with le kc kd Some show ?thesis by (cases "last_used d") auto
    qed
    have 2: "created_at c \<le> created_at d" if tie: "last_used d = last_used c"
    proof -
      from tie kc kd have "lu_key (circuits m1) x = lu_key (circuits m1) cid" by simp
      with pre have "x \<notin> set pre" by auto
      with cases have "x = cid \<or> x \<in> set post" by simp
      then show ?thesis
      proof
        assume "x = cid"
        with c d show ?thesis by simp
      next
        assume "x \<in> set post"
        moreover from h1 have "sorted_wrt (created_le (circuits m1)) (pre @ cid # post)"
          by (simp add: hist_inv_def a)
        ultimately have "created_le (circuits m1) cid x" by (auto simp: sorted_wrt_append)
        with c d show ?thesis by (simp add: created_le_def)
      qed
    qed
    from 1 2 show ?thesis by blast
  qed
  from mem c sel g show ?thesis by blast
qed

lemma pool1d_eq:
  "pool1d = \<lparr>socks_port = 9050, control_port = 9051, control_password = None, max_circuits = 1,
      circuit_lifetime = 600, circuits = [(''1'', (new_circuit 1000 ''1'' [])\<lparr>state := DEAD\<rparr>)],
      active_circuits = [], session_cache = []\<rparr>"
  by (simp add: pool1d_def pool1_eq mark_circuit_dead_def)

lemma reachable_pool1d: "reachable (1000, pool1d)"
  unfolding pool1d_def using reachable_pool1 step_mark_dead by (rule reachable_step)

lemma get_circuit_pool1d:
  "get_circuit False 1001 (Built ''2'' []) pool1d =
     (Inr (Some circuit2_new),
      pool1d\<lparr>circuits := [(''1'', (new_circuit 1000 ''1'' [])\<lparr>state := DEAD\<rparr>), (''2'', circuit2_new)],
             active_circuits := [''2'']\<rparr>)"
  by (simp add: pool1d_eq get_circuit_def cleanup_circuits_def create_circuit_def circuit2_new_def
      new_circuit_def Let_def)

theorem state_moves_forward_only_witness:
  "reachable (1000, pool1d)
   \<and> map_of (circuits pool1d) ''1'' = Some ((new_circuit 1000 ''1'' [])\<lparr>state := DEAD\<rparr>)
   \<and> run (1000, pool1d) [Some circuit2_new]
        (1001, snd (get_circuit False 1001 (Built ''2'' []) pool1d))
   \<and> (\<exists>c'. map_of (circuits (snd (get_circuit False 1001 (Built ''2'' []) pool1d))) ''1'' = Some c'
         \<and> state c' = DEAD)
   \<and> circuit_id circuit2_new \<noteq> ''1''"
proof -
  have l: "map_of (circuits pool1d) ''1'' = Some ((new_circuit 1000 ''1'' [])\<lparr>state := DEAD\<rparr>)"
    by (simp add: pool1d_eq)
  have "step (1000, pool1d) (returned (Inr (Some circuit2_new)))
          (1001, snd (get_circuit False 1001 (Built ''2'' []) pool1d))"
    by (rule step_get_circuit [where rf = False and reply = "Built ''2'' []"])
       (simp_all add: get_circuit_pool1d, simp add: pool1d_eq)
  then have r: "run (1000, pool1d) [Some circuit2_new]
          (1001, snd (get_circuit False 1001 (Built ''2'' []) pool1d))"
    using run_nil by (auto intro: run_step)
  from state_moves_forward_only [OF reachable_pool1d r, of "''1''"] l reachable_pool1d r
  show ?thesis by (auto simp: new_circuit_def)
qed

lemma pool2_eq:
  "pool2 = \<lparr>socks_port = 9050, control_port = 9051, control_password = None, max_circuits = 2,
      circuit_lifetime = 1000,
      circuits = [(''1'', new_circuit 1000 ''1'' []), (''2'', new_circuit 1000 ''2'' [])],
      active_circuits = [''1'', ''2''], session_cache = []\<rparr>"
proof -
  have "[0..<2] = [0, Suc 0]" by (simp add: upt_rec)
  then show ?thesis
    by (simp add: pool2_def start_def initialize_circuits_def create_circuit_def TorManager_init_def
        ids2_def)
qed

lemma reachable_pool2: "reachable (1000, pool2)"
proof -
  have "[0..<2] = [0, Suc 0]" by (simp add: upt_rec)
  then show ?thesis unfolding pool2_def by (intro reachable_start) (simp_all add: ids2_def)
qed

lemma pool2a_eq:
  "pool2a = \<lparr>socks_port = 9050, control_port = 9051, control_password = None, max_circuits = 2,
      circuit_lifetime = 1000,
      circuits = [(''1'', (new_circuit 1000 ''1'' [])\<lparr>request_count := 1, last_used := Some 1100, state := ACTIVE\<rparr>),
                  (''2'', new_circuit 1000 ''2'' [])],
      active_circuits = [''1'', ''2''], session_cache = []\<rparr>"
  by (simp add: pool2a_def pool2_eq get_circuit_def cleanup_circuits_def is_healthy_def age_def
      new_circuit_def Let_def)

lemma reachable_pool2a: "reachable (1100, pool2a)"
proof -
  have "step (1000, pool2) (returned (fst (get_circuit False 1100 ControllerError pool2))) (1100, pool2a)"
    by (rule step_get_circuit [where rf = False and reply = ControllerError])
       (simp_all add: pool2a_def)
  with reachable_pool2 show ?thesis by (rule reachable_step)
qed

lemma cleanup_pool2a: "cleanup_circuits 1700 pool2a = pool2a"
  by (simp add: pool2a_eq cleanup_circuits_def age_def new_circuit_def)

theorem recycle_takes_least_recently_used_witness:
  "reachable (1100, pool2a)
   \<and> find_healthy False 1700 (circuits (cleanup_circuits 1700 pool2a))
        (active_circuits (cleanup_circuits 1700 pool2a)) = Inr None
   \<and> int (length (active_circuits (cleanup_circuits 1700 pool2a))) = max_circuits (cleanup_circuits 1700 pool2a)
   \<and> returned (fst (get_circuit False 1700 ControllerError pool2a))
       = Some ((new_circuit 1000 ''2'' [])\<lparr>request_count := 1, last_used := Some 1700\<rparr>)"
proof -
  have f: "find_healthy False 1700 (circuits (cleanup_circuits 1700 pool2a))
        (active_circuits (cleanup_circuits 1700 pool2a)) = Inr None"
    by (simp add: cleanup_pool2a) (simp add: pool2a_eq is_healthy_def age_def new_circuit_def)
  have n: "int (length (active_circuits (cleanup_circuits 1700 pool2a))) = max_circuits (cleanup_circuits 1700 pool2a)"
    by (simp add: cleanup_pool2a) (simp add: pool2a_eq)
  have a: "active_circuits (cleanup_circuits 1700 pool2a) \<noteq> []"
    by (simp add: cleanup_pool2a) (simp add: pool2a_eq)
  from recycle_takes_least_recently_used [OF reachable_pool2a refl f _ a, of ControllerError] n
  obtain cid c where
    m: "cid \<in> set (active_circuits (cleanup_circuits 1700 pool2a))"
    and l: "map_of (circuits (cleanup_circuits 1700 pool2a)) cid = Some c"
    and s: "\<forall>x d. x \<in> set (active_circuits (cleanup_circuits 1700 pool2a)) \<longrightarrow>
              map_of (circuits (cleanup_circuits 1700 pool2a)) x = Some d \<longrightarrow>
              not_more_recent (last_used c) (last_used d) \<and>
              (last_used d = last_used c \<longrightarrow> created_at c \<le> created_at d)"
    and g: "returned (fst (get_circuit False 1700 ControllerError pool2a))
              = Some (c\<lparr>request_count := request_count c + 1, last_used := Some 1700\<rparr>)"
    by auto
  have "map_of (circuits (cleanup_circuits 1700 pool2a)) ''2'' = Some (new_circuit 1000 ''2'' [])"
    "''2'' \<in> set (active_circuits (cleanup_circuits 1700 pool2a))"
    by (simp_all add: cleanup_pool2a) (simp_all add: pool2a_eq)
  with s have "not_more_recent (last_used c) (last_used (new_circuit 1000 ''2'' []))" by blast
  then have none: "last_used c = None" by (cases "last_used c") (simp_all add: new_circuit_def)
  from m l have "c = (new_circuit 1000 ''1'' [])\<lparr>request_count := 1, last_used := Some 1100, state := ACTIVE\<rparr>
      \<or> c = new_circuit 1000 ''2'' []"
    by (simp add: cleanup_pool2a) (auto simp: pool2a_eq split: if_splits)
  with none have "c = new_circuit 1000 ''2'' []" by auto
  with g f n reachable_pool2a show ?thesis by (simp add: new_circuit_def)
qed

section \<open>Exhaustion, sessions and freshness\<close>














lemma session_cache_rotate: "session_cache (rotate_all_circuits now ctl m) = []"
  by (simp add: rotate_all_circuits_def initialize_fields)

lemma bind_session_cached:
  "map_of (session_cache m) (circuit_id c) = Some sess \<Longrightarrow> bind_session c r m = (Inr sess, m)"
  by (simp add: bind_session_def)

text \<open>
  C7 (as stated, refuted). The pool \<open>pool1s\<close> holds a cached session for circuit "1".
  After \<open>mark_circuit_dead\<close> the circuit is Dead, and the next \<open>get_http_session\<close>
  for it returns that cached session and leaves it in the cache.
\<close>

theorem mark_dead_keeps_stale_session:
  "map_of (session_cache pool1s) ''1'' = Some session1
   \<and> (\<exists>c. map_of (circuits (mark_circuit_dead ''1'' pool1s)) ''1'' = Some c \<and> state c = DEAD)
   \<and> get_http_session (Some circuit1_used) 1002 ControllerError 1 (mark_circuit_dead ''1'' pool1s)
       = (Inr session1, mark_circuit_dead ''1'' pool1s)
   \<and> map_of (session_cache (mark_circuit_dead ''1'' pool1s)) ''1'' = Some session1"
  by (simp add: pool1s_eq mark_circuit_dead_def get_http_session_def bind_session_def
      circuit1_used_def new_circuit_def)

lemma session_cache_get_circuit:
  "session_cache (snd (get_circuit rf now reply m)) = session_cache m"
proof -
  obtain res m' where g: "get_circuit rf now reply m = (res, m')" by (cases "get_circuit rf now reply m")
  have "session_cache m' = session_cache m"
    by (rule get_circuit_inv [OF g]) (simp_all add: cleanup_fields create_fields touch_fields)
  with g show ?thesis by simp
qed

lemma bind_session_keeps:
  assumes "map_of (session_cache m) k = Some sess"
  shows "map_of (session_cache (snd (bind_session c r m))) k = Some sess"
proof (cases "map_of (session_cache m) (circuit_id c)")
  case None
  with assms have "k \<noteq> circuit_id c" by auto
  with None assms show ?thesis by (simp add: bind_session_def Let_def update_conv')
next
  case (Some s)
  with assms show ?thesis by (simp add: bind_session_def)
qed

lemma get_http_session_keeps:
  assumes "map_of (session_cache m) k = Some sess"
  shows "map_of (session_cache (snd (get_http_session copt now reply r m))) k = Some sess"
proof (cases copt)
  case (Some c)
  with assms show ?thesis by (simp add: get_http_session_def bind_session_keeps)
next
  case None
  obtain gr m1 where g: "get_circuit False now reply m = (gr, m1)" by (cases "get_circuit False now reply m")
  with session_cache_get_circuit [of False now reply m] assms
  have k: "map_of (session_cache m1) k = Some sess" by simp
  show ?thesis
  proof (cases gr)
    case (Inl e)
    with None g k show ?thesis by (simp add: get_http_session_def)
  next
    case (Inr found)
    with None g k show ?thesis
      by (cases found) (simp_all add: get_http_session_def bind_session_keeps)
  qed
qed

lemma session_cache_get_browser:
  "session_cache (snd (get_browser copt now reply r m)) = session_cache m"
proof (cases copt)
  case (Some c)
  then show ?thesis by (simp add: get_browser_def)
next
  case None
  obtain gr m1 where g: "get_circuit False now reply m = (gr, m1)" by (cases "get_circuit False now reply m")
  with session_cache_get_circuit [of False now reply m] have "session_cache m1 = session_cache m" by simp
  with None g show ?thesis
    by (auto simp: get_browser_def split: sum.splits option.splits)
qed

text \<open>
  C7 (amended). \<open>mark_circuit_dead\<close> leaves the session cache as it is, and so do
  \<open>_cleanup_circuits\<close>, \<open>get_circuit\<close>, \<open>start\<close> and \<open>get_browser\<close>;
  \<open>get_http_session\<close> keeps every binding there is. So the session cached for a circuit
  stays bound when the circuit is marked Dead, and the next \<open>get_http_session\<close> for that
  circuit returns it. Bindings are removed by \<open>rotate_all_circuits\<close> and by \<open>stop\<close>
  only, each of which empties the cache.
\<close>

theorem session_binding_survives_until_rotate_or_stop:
  "session_cache (mark_circuit_dead cid m) = session_cache m
   \<and> session_cache (cleanup_circuits now m) = session_cache m
   \<and> session_cache (snd (get_circuit rf now reply m)) = session_cache m
   \<and> session_cache (start now ctl m) = session_cache m
   \<and> session_cache (snd (get_browser copt now reply r m)) = session_cache m
   \<and> (map_of (session_cache m) k = Some sess \<longrightarrow>
        map_of (session_cache (snd (get_http_session copt now reply r m))) k = Some sess)
   \<and> (map_of (session_cache m) (circuit_id c) = Some sess \<longrightarrow>
        get_http_session (Some c) now reply r (mark_circuit_dead cid m)
          = (Inr sess, mark_circuit_dead cid m))
   \<and> session_cache (rotate_all_circuits now ctl m) = []
   \<and> session_cache (stop m) = []"
  by (simp add: mark_dead_fields cleanup_fields session_cache_get_circuit start_def initialize_fields
      session_cache_get_browser get_http_session_keeps session_cache_rotate stop_def)
     (simp add: get_http_session_def bind_session_cached mark_dead_fields)

theorem session_binding_survives_until_rotate_or_stop_witness:
  "map_of (session_cache pool1s) (circuit_id circuit1_used) = Some session1
   \<and> session_cache (mark_circuit_dead ''1'' pool1s) = session_cache pool1s
   \<and> session_cache (cleanup_circuits 1005 pool1s) = session_cache pool1s
   \<and> map_of (session_cache (snd (get_http_session None 1005 (Built ''9'' []) 2 pool1s))) ''1''
       = Some session1
   \<and> fst (get_http_session (Some circuit1_used) 1005 (Built ''9'' []) 2 (mark_circuit_dead ''1'' pool1s))
       = Inr session1
   \<and> session_cache (rotate_all_circuits 1005 (\<lambda>i. ControllerError) pool1s) = []
   \<and> session_cache (stop pool1s) = []"
proof -
  have l: "map_of (session_cache pool1s) (circuit_id circuit1_used) = Some session1"
    "circuit_id circuit1_used = ''1''"
    by (simp_all add: pool1s_eq circuit1_used_def new_circuit_def)
  from session_binding_survives_until_rotate_or_stop
    [where cid = "''1''" and m = pool1s and c = circuit1_used and sess = session1 and now = 1005
       and reply = "Built ''9'' []" and r = 2 and ctl = "\<lambda>i. ControllerError" and copt = None
       and k = "''1''"] l
  show ?thesis by simp
qed

lemma pool3_eq:
  "pool3 = \<lparr>socks_port = 9050, control_port = 9051, control_password = None, max_circuits = 10,
      circuit_lifetime = 600,
      circuits = [(''1'', new_circuit 1000 ''1'' []), (''2'', new_circuit 1000 ''2'' []),
                  (''3'', new_circuit 1000 ''3'' [])],
      active_circuits = [''1'', ''2'', ''3''], session_cache = []\<rparr>"
  by (simp add: pool3_def start_def initialize_circuits_def create_circuit_def TorManager_init_def
      ids3_def upt_3)

lemma reachable_pool3: "reachable (1000, pool3)"
  unfolding pool3_def by (rule reachable_start) (simp_all add: upt_3 ids3_def)

text \<open>
  C8 (the code at the failing input). The pool \<open>pool3\<close> is started at time 1000 with
  three circuits, capacity 10 and lifetime 600. At time 2000 all three have expired;
  \<open>get_circuit\<close> creates circuit "4" and returns it with request count 1 and state
  Fresh, and the registry holds it so.
\<close>

theorem created_circuit_is_fresh_with_one_request:
  "reachable (1000, pool3)
   \<and> get_circuit False 2000 (Built ''4'' []) pool3
       = (Inr (Some ((new_circuit 2000 ''4'' [])\<lparr>request_count := 1, last_used := Some 2000\<rparr>)),
          pool3\<lparr>circuits := [(''1'', (new_circuit 1000 ''1'' [])\<lparr>state := DEAD\<rparr>),
                               (''2'', (new_circuit 1000 ''2'' [])\<lparr>state := DEAD\<rparr>),
                               (''3'', (new_circuit 1000 ''3'' [])\<lparr>state := DEAD\<rparr>),
                               (''4'', (new_circuit 2000 ''4'' [])\<lparr>request_count := 1, last_used := Some 2000\<rparr>)],
                 active_circuits := [''4'']\<rparr>)
   \<and> state ((new_circuit 2000 ''4'' [])\<lparr>request_count := 1, last_used := Some 2000\<rparr>) = FRESH
   \<and> request_count ((new_circuit 2000 ''4'' [])\<lparr>request_count := 1, last_used := Some 2000\<rparr>) = 1"
proof -
  have "get_circuit False 2000 (Built ''4'' []) pool3
       = (Inr (Some ((new_circuit 2000 ''4'' [])\<lparr>request_count := 1, last_used := Some 2000\<rparr>)),
          pool3\<lparr>circuits := [(''1'', (new_circuit 1000 ''1'' [])\<lparr>state := DEAD\<rparr>),
                               (''2'', (new_circuit 1000 ''2'' [])\<lparr>state := DEAD\<rparr>),
                               (''3'', (new_circuit 1000 ''3'' [])\<lparr>state := DEAD\<rparr>),
                               (''4'', (new_circuit 2000 ''4'' [])\<lparr>request_count := 1, last_used := Some 2000\<rparr>)],
                 active_circuits := [''4'']\<rparr>)"
    by (simp add: pool3_eq get_circuit_def cleanup_circuits_def create_circuit_def age_def
        new_circuit_def Let_def)
  with reachable_pool3 show ?thesis by (simp add: new_circuit_def)
qed

lemma pool1u_eq:
  "pool1u = \<lparr>socks_port = 9050, control_port = 9051, control_password = None, max_circuits = 1,
      circuit_lifetime = 600, circuits = [(''1'', circuit1_used)],
      active_circuits = [''1''], session_cache = []\<rparr>"
  by (simp add: pool1u_def pool1_eq get_circuit_def cleanup_circuits_def is_healthy_def age_def
      new_circuit_def circuit1_used_def Let_def)

lemma reachable_pool1u: "reachable (1001, pool1u)"
proof -
  have "step (1000, pool1) (returned (fst (get_circuit True 1001 ControllerError pool1))) (1001, pool1u)"
    by (rule step_get_circuit [where rf = True and reply = ControllerError])
       (simp_all add: pool1u_def)
  with reachable_pool1 show ?thesis by (rule reachable_step)
qed

lemma get_circuit_pool1u:
  "get_circuit True 1002 ControllerError pool1u =
     (Inr (Some (circuit1_used\<lparr>request_count := 2, last_used := Some 1002\<rparr>)),
      pool1u\<lparr>circuits := [(''1'', circuit1_used\<lparr>request_count := 2, last_used := Some 1002\<rparr>)]\<rparr>)"
  by (simp add: pool1u_eq get_circuit_def cleanup_circuits_def is_healthy_def age_def recycle_def
      oldest_active_def last_used_key_def new_circuit_def circuit1_used_def Let_def)

text \<open>
  C10. \<open>require_fresh\<close> only filters the healthy scan. There is a reachable pool state,
  saturated and with no healthy unused circuit, in which \<open>get_circuit\<close> with
  \<open>require_fresh\<close> set succeeds and returns a circuit whose request count is 2.
\<close>

theorem require_fresh_can_return_used_circuit:
  "\<exists>t m now reply c m'.
     reachable (t, m) \<and> t \<le> now
     \<and> int (length (active_circuits (cleanup_circuits now m))) = max_circuits m
     \<and> find_healthy True now (circuits (cleanup_circuits now m))
          (active_circuits (cleanup_circuits now m)) = Inr None
     \<and> get_circuit True now reply m = (Inr (Some c), m') \<and> 2 \<le> request_count c"
proof -
  have c: "cleanup_circuits 1002 pool1u = pool1u"
    by (simp add: pool1u_eq cleanup_circuits_def age_def circuit1_used_def new_circuit_def)
  have "reachable (1001, pool1u) \<and> (1001::real) \<le> 1002
     \<and> int (length (active_circuits (cleanup_circuits 1002 pool1u))) = max_circuits pool1u
     \<and> find_healthy True 1002 (circuits (cleanup_circuits 1002 pool1u))
          (active_circuits (cleanup_circuits 1002 pool1u)) = Inr None
     \<and> get_circuit True 1002 ControllerError pool1u
         = (Inr (Some (circuit1_used\<lparr>request_count := 2, last_used := Some 1002\<rparr>)),
            pool1u\<lparr>circuits := [(''1'', circuit1_used\<lparr>request_count := 2, last_used := Some 1002\<rparr>)]\<rparr>)
     \<and> 2 \<le> request_count (circuit1_used\<lparr>request_count := 2, last_used := Some 1002\<rparr>)"
    using reachable_pool1u get_circuit_pool1u
    by (simp add: c) (simp add: pool1u_eq is_healthy_def age_def circuit1_used_def new_circuit_def)
  then show ?thesis by blast
qed

end
